theory Spec2Isabelle
  imports Main "HOL-Library.Word" "HOL-Library.Char_ord" "HOL-Library.List_Lexorder"
begin

section \<open>The namespaced snapshot metadata layer (metadata/snapshot.go)\<close>

subsection \<open>Data model\<close>

text \<open>
  The error kinds of errdefs that the file tests or raises; every other error (of the
  store, of the driver, of an option function) keeps its message in \<open>Other\<close>.
  Wrapping an error with a message does not change its kind, so messages are left out.
\<close>

datatype error = NotFound | AlreadyExists | InvalidArgument | FailedPrecondition
  | Other string

text \<open>
  Entries under string keys, one entry per key, in the byte order of the keys. It is
  what a bucket of the store holds, as a cursor goes through it, and it is how a Go map
  from strings is written here (whose own order is of no account): \<open>map_of\<close> reads a
  key, \<open>bput\<close> writes an entry at its place in the order, \<open>bdelete\<close> removes one.
\<close>

type_synonym 'v bucket = "(string \<times> 'v) list"

fun bput :: "'v bucket \<Rightarrow> string \<Rightarrow> 'v \<Rightarrow> 'v bucket" where
  "bput [] k v = [(k, v)]"
| "bput ((k', v') # b) k v =
     (if k < k' then (k, v) # (k', v') # b
      else if k = k' then (k, v) # b
      else (k', v') # bput b k v)"

definition bdelete :: "'v bucket \<Rightarrow> string \<Rightarrow> 'v bucket" where
  "bdelete b k = filter (\<lambda>(k', _). k' \<noteq> k) b"

text \<open>
  A Go label map is \<open>nil\<close> or a map object: \<open>None\<close> is the nil map, \<open>Some m\<close> a map.
  Reading a key from a nil map, or a key that is missing, gives the empty string.
\<close>

type_synonym labels = "string bucket option"

definition lookup :: "labels \<Rightarrow> string \<Rightarrow> string" where
  "lookup l k = (case l of None \<Rightarrow> '''' | Some m \<Rightarrow> (case map_of m k of None \<Rightarrow> '''' | Some v \<Rightarrow> v))"

text \<open>The entry of a key, if the map has one.\<close>

definition entry :: "labels \<Rightarrow> string \<Rightarrow> string option" where
  "entry l k = (case l of None \<Rightarrow> None | Some m \<Rightarrow> map_of m k)"

datatype kind = KindUnknown | KindView | KindActive | KindCommitted

text \<open>snapshots.Info; times are instants on an integer clock.\<close>

record Info =
  Kind :: kind
  Name :: string
  Parent :: string
  Labels :: labels
  Created :: int
  Updated :: int

definition emptyInfo :: Info where
  "emptyInfo = \<lparr>Kind = KindUnknown, Name = '''', Parent = '''', Labels = None,
     Created = 0, Updated = 0\<rparr>"

subsection \<open>overlayInfo\<close>

text \<open>
  The loop of the else branch assigns every entry of \<open>overlay.Labels\<close> to
  \<open>overlay.Labels\<close> itself, under the key it already has: it changes neither map,
  so the driver's own label map is what the result carries in that branch.
\<close>

definition overlayInfo :: "Info \<Rightarrow> Info \<Rightarrow> Info" where
  "overlayInfo info overlay =
     info\<lparr>Name := Name overlay, Created := Created overlay, Updated := Updated overlay,
       Parent := Parent overlay,
       Labels := (case Labels info of None \<Rightarrow> Labels overlay | Some m \<Rightarrow> Some m)\<rparr>"

subsection \<open>createKey\<close>

text \<open>The decimal rendering of \<open>%d\<close> for an unsigned number.\<close>

definition digit :: "nat \<Rightarrow> char" where
  "digit n = char_of (of_char CHR ''0'' + n)"

fun decimal :: "nat \<Rightarrow> string" where
  "decimal n = (if n < 10 then [digit n] else decimal (n div 10) @ [digit (n mod 10)])"

declare decimal.simps [simp del]

definition createKey :: "64 word \<Rightarrow> string \<Rightarrow> string \<Rightarrow> string" where
  "createKey id' namespace key = namespace @ ''/'' @ decimal (unat id') @ ''/'' @ key"

subsection \<open>The metadata store\<close>

text \<open>
  Modelled from the spec: the transactional key-value engine (go.etcd.io/bbolt), which
  is not in this file. A bucket is its entries in the byte order of their keys, as a
  cursor goes through them; reading and writing an entry of the store does not fail.
  Cursor.Seek gives the entries from the first key that is not below the given one.
\<close>

definition seek :: "'v bucket \<Rightarrow> string \<Rightarrow> 'v bucket" where
  "seek b k = dropWhile (\<lambda>(k', _). k' < k) b"

text \<open>
  Modelled from the spec (section 3): the sub-bucket of one snapshot record. The value
  under the name key is the backend key, the empty string when none is stored, and so
  for the parent key; the children sub-bucket is the set of its keys (an empty one is
  read like a missing one); the timestamps are what WriteTimestamps of boltutil was
  given, and ReadTimestamps gives them back; \<open>blabels\<close> is what ReadLabels of boltutil
  gives: nil when the record has no label bucket, and else the map of its entries.
\<close>

record srec =
  bname :: string
  bparent :: string
  bchildren :: "string set"
  bcreated :: int
  bupdated :: int
  blabels :: labels

definition emptyRec :: srec where
  "emptyRec = \<lparr>bname = '''', bparent = '''', bchildren = {}, bcreated = 0, bupdated = 0,
     blabels = None\<rparr>"

text \<open>
  Modelled from the spec: boltutil.WriteLabels, which is not under src/ (section 3 has
  the record hold its label map). It drops the record's label bucket; for a map
  without entries (or nil) that is all; otherwise it makes a new label bucket, and to
  each entry of the map it does one of two things: an entry with an empty value is
  deleted from the map it was handed, and any other entry is stored. The result is
  what ReadLabels gives afterwards, and the map object as the call leaves it.
\<close>

definition WriteLabels :: "labels \<Rightarrow> labels \<times> labels" where
  "WriteLabels l =
     (case l of
        None \<Rightarrow> (None, None)
      | Some m \<Rightarrow>
          if length m = 0 then (None, Some m)
          else (Some (filter (\<lambda>(k, v). v \<noteq> '''') m), Some (filter (\<lambda>(k, v). v \<noteq> '''') m)))"

text \<open>
  The bucket of one snapshotter in one namespace: its sequence counter (a uint64; the
  counter adds one and gives the new value) and one record per snapshot name.
\<close>

record sbucket =
  bsequence :: "64 word"
  snaps :: "srec bucket"

definition emptyBucket :: sbucket where
  "emptyBucket = \<lparr>bsequence = 0, snaps = []\<rparr>"

text \<open>The database: namespace, then snapshotter name, then the snapshotter's bucket.\<close>

type_synonym db = "sbucket bucket bucket"

definition getSnapshotterBucket :: "db \<Rightarrow> string \<Rightarrow> string \<Rightarrow> sbucket option" where
  "getSnapshotterBucket d ns name =
     (case map_of d ns of None \<Rightarrow> None | Some nb \<Rightarrow> map_of nb name)"

definition putSnapshotterBucket :: "db \<Rightarrow> string \<Rightarrow> string \<Rightarrow> sbucket \<Rightarrow> db" where
  "putSnapshotterBucket d ns name b =
     bput d ns (bput (case map_of d ns of None \<Rightarrow> [] | Some nb \<Rightarrow> nb) name b)"

definition createSnapshotterBucket :: "db \<Rightarrow> string \<Rightarrow> string \<Rightarrow> db \<times> sbucket" where
  "createSnapshotterBucket d ns name =
     (case getSnapshotterBucket d ns name of
        Some b \<Rightarrow> (d, b)
      | None \<Rightarrow> (putSnapshotterBucket d ns name emptyBucket, emptyBucket))"

text \<open>
  A write through a sub-bucket pointer: the record of that name changed in place, where
  it stands; nothing happens when there is no such record.
\<close>

definition modify :: "sbucket \<Rightarrow> string \<Rightarrow> (srec \<Rightarrow> srec) \<Rightarrow> sbucket" where
  "modify b k f = b\<lparr>snaps := map (\<lambda>(k', r). if k' = k then (k', f r) else (k', r)) (snaps b)\<rparr>"

definition NextSequence :: "sbucket \<Rightarrow> 64 word \<times> sbucket" where
  "NextSequence b = (bsequence b + 1, b\<lparr>bsequence := bsequence b + 1\<rparr>)"

definition getKey :: "db \<Rightarrow> string \<Rightarrow> string \<Rightarrow> string \<Rightarrow> string" where
  "getKey d ns name key =
     (case getSnapshotterBucket d ns name of
        None \<Rightarrow> ''''
      | Some bkt \<Rightarrow> (case map_of (snaps bkt) key of None \<Rightarrow> '''' | Some sbkt \<Rightarrow> bname sbkt))"

subsection \<open>The collaborators and the state\<close>

type_synonym mount = string

type_synonym opt = "Info \<Rightarrow> error + Info"

text \<open>
  What the file calls and does not define, as parameters: the driver (acting on its own
  state \<open>'w\<close>, which also carries the clock that time.Now reads), the label validation
  of validateSnapshot (the loop over labels.Validate, as one function of the label map),
  and the lease bookkeeping (acting on a lease state \<open>'l\<close> that lives in the same
  transaction as the buckets). The driver's Walk hands every info of its list to the
  callback, which never fails here, and then returns its own error or nil.
\<close>

record ('w, 'l) env =
  drvStat :: "'w \<Rightarrow> string \<Rightarrow> error + Info"
  drvPrepare :: "'w \<Rightarrow> string \<Rightarrow> string \<Rightarrow> opt list \<Rightarrow> (error + mount list) \<times> 'w"
  drvView :: "'w \<Rightarrow> string \<Rightarrow> string \<Rightarrow> opt list \<Rightarrow> (error + mount list) \<times> 'w"
  drvCommit :: "'w \<Rightarrow> string \<Rightarrow> string \<Rightarrow> error option \<times> 'w"
  drvRemove :: "'w \<Rightarrow> string \<Rightarrow> error option \<times> 'w"
  drvWalk :: "'w \<Rightarrow> (Info list \<times> error option) \<times> 'w"
  drvCleanup :: "('w \<Rightarrow> error option \<times> 'w) option"
  now :: "'w \<Rightarrow> int"
  validate :: "labels \<Rightarrow> error option"
  addSnapshotLease :: "string \<Rightarrow> string \<Rightarrow> 'l \<Rightarrow> error + 'l"
  removeSnapshotLease :: "string \<Rightarrow> string \<Rightarrow> 'l \<Rightarrow> error + 'l"

text \<open>
  The state: the driver's, the store's (buckets and leases, both under the
  transaction), and the process-wide set of dirty snapshotter names.
\<close>

record ('w, 'l) state =
  world :: 'w
  store :: db
  leases :: 'l
  dirtySS :: "string set"

text \<open>
  Modelled from the spec: namespaces.NamespaceRequired and the validation it calls,
  which are not under src/. The context carries a namespace or none, and a missing or
  empty one is a precondition error (section 4.2). A namespace is then validated: it
  has at most 76 characters and is a sequence of labels separated by single dots, a
  label being a letter followed by letters or digits, and then any number of groups of
  hyphens (after an optional colon), a letter, and letters or digits; anything else is
  an invalid argument. \<open>nsMatch\<close> reads the namespace from left to right: state 0
  is the start of a label, 1 is after its first letter, 2 is inside a label (the only
  state to end in), 3 is after a colon, 4 is after hyphens.
\<close>

record ctx =
  ctxNamespace :: "string option"

definition isAlpha :: "char \<Rightarrow> bool" where
  "isAlpha c \<longleftrightarrow> (CHR ''A'' \<le> c \<and> c \<le> CHR ''Z'') \<or> (CHR ''a'' \<le> c \<and> c \<le> CHR ''z'')"

definition isAlnum :: "char \<Rightarrow> bool" where
  "isAlnum c \<longleftrightarrow> isAlpha c \<or> (CHR ''0'' \<le> c \<and> c \<le> CHR ''9'')"

fun nsMatch :: "nat \<Rightarrow> string \<Rightarrow> bool" where
  "nsMatch q [] = (q = 2)"
| "nsMatch q (c # cs) =
     (if q = 0 then isAlpha c \<and> nsMatch 1 cs
      else if q = 1 then isAlnum c \<and> nsMatch 2 cs
      else if q = 2 then
        (if isAlnum c then nsMatch 2 cs
         else if c = CHR '':'' then nsMatch 3 cs
         else if c = CHR ''-'' then nsMatch 4 cs
         else if c = CHR ''.'' then nsMatch 0 cs
         else False)
      else if q = 3 then c = CHR ''-'' \<and> nsMatch 4 cs
      else if c = CHR ''-'' then nsMatch 4 cs
      else isAlpha c \<and> nsMatch 1 cs)"

definition Validate :: "string \<Rightarrow> error option" where
  "Validate s =
     (if length s > 76 then Some InvalidArgument
      else if \<not> nsMatch 0 s then Some InvalidArgument
      else None)"

definition NamespaceRequired :: "ctx \<Rightarrow> error + string" where
  "NamespaceRequired ctx =
     (case ctxNamespace ctx of
        None \<Rightarrow> Inl FailedPrecondition
      | Some ns \<Rightarrow>
          if ns = '''' then Inl FailedPrecondition
          else (case Validate ns of Some e \<Rightarrow> Inl e | None \<Rightarrow> Inr ns))"

text \<open>
  Modelled from the spec (section 7): a transaction whose function returns an error
  leaves the store as it was, while what the driver did stays done.
\<close>

definition update :: "('w, 'l) state \<Rightarrow> (db \<times> 'l \<Rightarrow> 'w \<Rightarrow> (error + 'a \<times> db \<times> 'l) \<times> 'w) \<Rightarrow>
    (error + 'a) \<times> ('w, 'l) state" where
  "update st fn =
     (case fn (store st, leases st) (world st) of
        (Inl e, w) \<Rightarrow> (Inl e, st\<lparr>world := w\<rparr>)
      | (Inr (x, d, l), w) \<Rightarrow> (Inr x, st\<lparr>world := w, store := d, leases := l\<rparr>))"

fun applyOpts :: "opt list \<Rightarrow> Info \<Rightarrow> error + Info" where
  "applyOpts [] base = Inr base"
| "applyOpts (opt # opts) base =
     (case opt base of Inl e \<Rightarrow> Inl e | Inr base' \<Rightarrow> applyOpts opts base')"

text \<open>
  Modelled from the spec: snapshots.WithLabels (package snapshots, not under src/), the
  option with which a caller gives labels (section 4.2: option functions build the
  label set): it sets the label map of the info to the given map.
\<close>

definition WithLabels :: "string bucket \<Rightarrow> opt" where
  "WithLabels m = (\<lambda>i. Inr (i\<lparr>Labels := Some m\<rparr>))"

definition validateSnapshot :: "('w, 'l) env \<Rightarrow> Info \<Rightarrow> error option" where
  "validateSnapshot env i = validate env (Labels i)"

subsection \<open>Stat\<close>

definition localInfo :: "string \<Rightarrow> srec \<Rightarrow> Info" where
  "localInfo key sbkt = emptyInfo\<lparr>Name := key, Labels := blabels sbkt,
     Created := bcreated sbkt, Updated := bupdated sbkt, Parent := bparent sbkt\<rparr>"

definition Stat :: "('w, 'l) env \<Rightarrow> string \<Rightarrow> ctx \<Rightarrow> string \<Rightarrow> ('w, 'l) state \<Rightarrow> error + Info" where
  "Stat env sname ctx key st =
     (case NamespaceRequired ctx of
        Inl e \<Rightarrow> Inl e
      | Inr ns \<Rightarrow>
          (case getSnapshotterBucket (store st) ns sname of
             None \<Rightarrow> Inl NotFound
           | Some bkt \<Rightarrow>
               (case map_of (snaps bkt) key of
                  None \<Rightarrow> Inl NotFound
                | Some sbkt \<Rightarrow>
                    (case drvStat env (world st) (bname sbkt) of
                       Inl e \<Rightarrow> Inl e
                     | Inr i \<Rightarrow> Inr (overlayInfo i (localInfo key sbkt))))))"

subsection \<open>Update\<close>

definition HasPrefix :: "string \<Rightarrow> string \<Rightarrow> bool" where
  "HasPrefix s p = (take (length p) s = p)"

definition TrimPrefix :: "string \<Rightarrow> string \<Rightarrow> string" where
  "TrimPrefix s p = (if HasPrefix s p then drop (length p) s else s)"

text \<open>
  The loop over the field paths. It works on two map objects, \<open>info.Labels\<close> and
  \<open>local.Labels\<close>, which the path \<open>labels\<close> makes one and the same object (unless it is
  nil): the third component says whether they are, and a write to the local map then
  shows in the supplied one as well.
\<close>

fun applyPaths :: "string list \<Rightarrow> labels \<times> labels \<times> bool \<Rightarrow> error + labels \<times> labels \<times> bool" where
  "applyPaths [] s = Inr s"
| "applyPaths (path # paths) (infoL, localL, same) =
     (if HasPrefix path ''labels.'' then
        (let (m, same1) = (case localL of None \<Rightarrow> ([], False) | Some m \<Rightarrow> (m, same));
             key = TrimPrefix path ''labels.'';
             localL1 = Some (bput m key (lookup infoL key))
         in applyPaths paths (if same1 then localL1 else infoL, localL1, same1))
      else if path = ''labels'' then applyPaths paths (infoL, infoL, infoL \<noteq> None)
      else Inl InvalidArgument)"

text \<open>The label map Update goes on with: \<open>local.Labels\<close> after the field paths.\<close>

definition updateLabels :: "labels \<Rightarrow> labels \<Rightarrow> string list \<Rightarrow> error + labels" where
  "updateLabels infoL localL fieldpaths =
     (if length fieldpaths > 0 then
        (case applyPaths fieldpaths (infoL, localL, False) of
           Inl e \<Rightarrow> Inl e
         | Inr (_, l, _) \<Rightarrow> Inr l)
      else Inr infoL)"

definition Update_tx :: "('w, 'l) env \<Rightarrow> string \<Rightarrow> string \<Rightarrow> Info \<Rightarrow> string list \<Rightarrow>
    db \<times> 'l \<Rightarrow> 'w \<Rightarrow> (error + (string \<times> Info) \<times> db \<times> 'l) \<times> 'w" where
  "Update_tx env sname ns i fieldpaths = (\<lambda>(d, l) w.
     (case getSnapshotterBucket d ns sname of
        None \<Rightarrow> (Inl NotFound, w)
      | Some bkt \<Rightarrow>
          (case map_of (snaps bkt) (Name i) of
             None \<Rightarrow> (Inl NotFound, w)
           | Some sbkt \<Rightarrow>
               (case updateLabels (Labels i) (blabels sbkt) fieldpaths of
                  Inl e \<Rightarrow> (Inl e, w)
                | Inr ls \<Rightarrow>
                    (let local = emptyInfo\<lparr>Name := Name i, Labels := ls,
                           Created := bcreated sbkt, Updated := bupdated sbkt\<rparr>
                     in case validateSnapshot env local of
                          Some e \<Rightarrow> (Inl e, w)
                        | None \<Rightarrow>
                            (let local1 = local\<lparr>Updated := now env w\<rparr>;
                                 bkt1 = modify bkt (Name i) (\<lambda>r. r\<lparr>bcreated := Created local1,
                                     bupdated := Updated local1\<rparr>);
                                 (stored, ls1) = WriteLabels (Labels local1);
                                 bkt2 = modify bkt1 (Name i) (\<lambda>r. r\<lparr>blabels := stored\<rparr>)
                             in (Inr ((bname sbkt, local1\<lparr>Labels := ls1, Parent := bparent sbkt\<rparr>),
                                   putSnapshotterBucket d ns sname bkt2, l), w)))))))"

definition Update :: "('w, 'l) env \<Rightarrow> string \<Rightarrow> ctx \<Rightarrow> Info \<Rightarrow> string list \<Rightarrow> ('w, 'l) state \<Rightarrow>
    (error + Info) \<times> ('w, 'l) state" where
  "Update env sname ctx i fieldpaths st =
     (case NamespaceRequired ctx of
        Inl e \<Rightarrow> (Inl e, st)
      | Inr ns \<Rightarrow>
          if Name i = '''' then (Inl InvalidArgument, st)
          else
            (case update st (Update_tx env sname ns i fieldpaths) of
               (Inl e, st1) \<Rightarrow> (Inl e, st1)
             | (Inr (bkey, local), st1) \<Rightarrow>
                 (case drvStat env (world st1) bkey of
                    Inl e \<Rightarrow> (Inl e, st1)
                  | Inr di \<Rightarrow> (Inr (overlayInfo di local), st1))))"

subsection \<open>Prepare and View: createSnapshot\<close>

definition createSnapshot_tx :: "('w, 'l) env \<Rightarrow> string \<Rightarrow> string \<Rightarrow> string \<Rightarrow> string \<Rightarrow> bool \<Rightarrow>
    opt list \<Rightarrow> Info \<Rightarrow> db \<times> 'l \<Rightarrow> 'w \<Rightarrow> (error + mount list \<times> db \<times> 'l) \<times> 'w" where
  "createSnapshot_tx env sname ns key parent readonly opts base = (\<lambda>(d, l) w.
     (let (d1, bkt) = createSnapshotterBucket d ns sname
      in case map_of (snaps bkt) key of
           Some _ \<Rightarrow> (Inl AlreadyExists, w)
         | None \<Rightarrow>
             (let bkt1 = bkt\<lparr>snaps := bput (snaps bkt) key emptyRec\<rparr>
              in case addSnapshotLease env sname key l of
                   Inl e \<Rightarrow> (Inl e, w)
                 | Inr l1 \<Rightarrow>
                     (case (if parent \<noteq> '''' then
                              (case map_of (snaps bkt1) parent of
                                 None \<Rightarrow> Inl NotFound
                               | Some pbkt \<Rightarrow>
                                   Inr (bname pbkt,
                                     modify
                                       (modify bkt1 parent (\<lambda>r. r\<lparr>bchildren := insert key (bchildren r)\<rparr>))
                                       key (\<lambda>r. r\<lparr>bparent := parent\<rparr>)))
                            else Inr ('''', bkt1)) of
                        Inl e \<Rightarrow> (Inl e, w)
                      | Inr (bparent', bkt2) \<Rightarrow>
                          (let (sid, bkt3) = NextSequence bkt2;
                               bkey = createKey sid ns key;
                               bkt4 = modify bkt3 key (\<lambda>r. r\<lparr>bname := bkey\<rparr>);
                               ts = now env w;
                               bkt5 = modify bkt4 key (\<lambda>r. r\<lparr>bcreated := ts, bupdated := ts\<rparr>);
                               bkt6 = modify bkt5 key (\<lambda>r. r\<lparr>blabels := fst (WriteLabels (Labels base))\<rparr>)
                           in case (if readonly then drvView env w bkey bparent' opts
                                    else drvPrepare env w bkey bparent' opts) of
                                (Inl e, w1) \<Rightarrow> (Inl e, w1)
                              | (Inr m, w1) \<Rightarrow>
                                  (Inr (m, putSnapshotterBucket d1 ns sname bkt6, l1), w1))))))"

definition createSnapshot :: "('w, 'l) env \<Rightarrow> string \<Rightarrow> ctx \<Rightarrow> string \<Rightarrow> string \<Rightarrow> bool \<Rightarrow> opt list \<Rightarrow>
    ('w, 'l) state \<Rightarrow> (error + mount list) \<times> ('w, 'l) state" where
  "createSnapshot env sname ctx key parent readonly opts st =
     (case NamespaceRequired ctx of
        Inl e \<Rightarrow> (Inl e, st)
      | Inr ns \<Rightarrow>
          (case applyOpts opts emptyInfo of
             Inl e \<Rightarrow> (Inl e, st)
           | Inr base \<Rightarrow>
               (case validateSnapshot env base of
                  Some e \<Rightarrow> (Inl e, st)
                | None \<Rightarrow> update st (createSnapshot_tx env sname ns key parent readonly opts base))))"

definition Prepare :: "('w, 'l) env \<Rightarrow> string \<Rightarrow> ctx \<Rightarrow> string \<Rightarrow> string \<Rightarrow> opt list \<Rightarrow>
    ('w, 'l) state \<Rightarrow> (error + mount list) \<times> ('w, 'l) state" where
  "Prepare env sname ctx key parent opts st = createSnapshot env sname ctx key parent False opts st"

definition View :: "('w, 'l) env \<Rightarrow> string \<Rightarrow> ctx \<Rightarrow> string \<Rightarrow> string \<Rightarrow> opt list \<Rightarrow>
    ('w, 'l) state \<Rightarrow> (error + mount list) \<times> ('w, 'l) state" where
  "View env sname ctx key parent opts st = createSnapshot env sname ctx key parent True opts st"

subsection \<open>Commit\<close>

definition Commit_tx :: "('w, 'l) env \<Rightarrow> string \<Rightarrow> string \<Rightarrow> string \<Rightarrow> string \<Rightarrow> Info \<Rightarrow>
    db \<times> 'l \<Rightarrow> 'w \<Rightarrow> (error + unit \<times> db \<times> 'l) \<times> 'w" where
  "Commit_tx env sname ns name key base = (\<lambda>(d, l) w.
     (case getSnapshotterBucket d ns sname of
        None \<Rightarrow> (Inl NotFound, w)
      | Some bkt \<Rightarrow>
          (case map_of (snaps bkt) name of
             Some _ \<Rightarrow> (Inl AlreadyExists, w)
           | None \<Rightarrow>
               (let bkt1 = bkt\<lparr>snaps := bput (snaps bkt) name emptyRec\<rparr>
                in case addSnapshotLease env sname name l of
                     Inl e \<Rightarrow> (Inl e, w)
                   | Inr l1 \<Rightarrow>
                       (case map_of (snaps bkt1) key of
                          None \<Rightarrow> (Inl NotFound, w)
                        | Some obkt \<Rightarrow>
                            (let bkey = bname obkt;
                                 (sid, bkt2) = NextSequence bkt1;
                                 nameKey = createKey sid ns name;
                                 bkt3 = modify bkt2 name (\<lambda>r. r\<lparr>bname := nameKey\<rparr>);
                                 parent = bparent obkt
                             in case (if length parent > 0 then
                                        (case map_of (snaps bkt3) parent of
                                           None \<Rightarrow> Inl NotFound
                                         | Some pbkt \<Rightarrow>
                                             Inr (modify
                                               (modify bkt3 parent
                                                  (\<lambda>r. r\<lparr>bchildren := insert name (bchildren r - {key})\<rparr>))
                                               name (\<lambda>r. r\<lparr>bparent := parent\<rparr>)))
                                      else Inr bkt3) of
                                  Inl e \<Rightarrow> (Inl e, w)
                                | Inr bkt4 \<Rightarrow>
                                    (let ts = now env w;
                                         bkt5 = modify bkt4 name (\<lambda>r. r\<lparr>bcreated := ts, bupdated := ts\<rparr>);
                                         bkt6 = modify bkt5 name (\<lambda>r. r\<lparr>blabels := fst (WriteLabels (Labels base))\<rparr>);
                                         bkt7 = bkt6\<lparr>snaps := bdelete (snaps bkt6) key\<rparr>
                                     in case removeSnapshotLease env sname key l1 of
                                          Inl e \<Rightarrow> (Inl e, w)
                                        | Inr l2 \<Rightarrow>
                                            (case drvCommit env w nameKey bkey of
                                               (Some e, w1) \<Rightarrow> (Inl e, w1)
                                             | (None, w1) \<Rightarrow>
                                                 (Inr ((), putSnapshotterBucket d ns sname bkt7, l2), w1)))))))))"

definition Commit :: "('w, 'l) env \<Rightarrow> string \<Rightarrow> ctx \<Rightarrow> string \<Rightarrow> string \<Rightarrow> opt list \<Rightarrow>
    ('w, 'l) state \<Rightarrow> error option \<times> ('w, 'l) state" where
  "Commit env sname ctx name key opts st =
     (case NamespaceRequired ctx of
        Inl e \<Rightarrow> (Some e, st)
      | Inr ns \<Rightarrow>
          (case applyOpts opts emptyInfo of
             Inl e \<Rightarrow> (Some e, st)
           | Inr base \<Rightarrow>
               (case validateSnapshot env base of
                  Some e \<Rightarrow> (Some e, st)
                | None \<Rightarrow>
                    (case update st (Commit_tx env sname ns name key base) of
                       (Inl e, st1) \<Rightarrow> (Some e, st1)
                     | (Inr _, st1) \<Rightarrow> (None, st1)))))"

subsection \<open>Remove\<close>

definition Remove_tx :: "('w, 'l) env \<Rightarrow> string \<Rightarrow> string \<Rightarrow> string \<Rightarrow>
    db \<times> 'l \<Rightarrow> 'w \<Rightarrow> (error + unit \<times> db \<times> 'l) \<times> 'w" where
  "Remove_tx env sname ns key = (\<lambda>(d, l) w.
     (case (case getSnapshotterBucket d ns sname of
              None \<Rightarrow> None
            | Some bkt \<Rightarrow> (case map_of (snaps bkt) key of None \<Rightarrow> None | Some sbkt \<Rightarrow> Some (bkt, sbkt))) of
        None \<Rightarrow> (Inl NotFound, w)
      | Some (bkt, sbkt) \<Rightarrow>
          if bchildren sbkt \<noteq> {} then (Inl FailedPrecondition, w)
          else
            (let parent = bparent sbkt
             in case (if length parent > 0 then
                        (case map_of (snaps bkt) parent of
                           None \<Rightarrow> Inl NotFound
                         | Some pbkt \<Rightarrow>
                             Inr (modify bkt parent (\<lambda>r. r\<lparr>bchildren := bchildren r - {key}\<rparr>)))
                      else Inr bkt) of
                  Inl e \<Rightarrow> (Inl e, w)
                | Inr bkt1 \<Rightarrow>
                    (let bkt2 = bkt1\<lparr>snaps := bdelete (snaps bkt1) key\<rparr>
                     in case removeSnapshotLease env sname key l of
                          Inl e \<Rightarrow> (Inl e, w)
                        | Inr l1 \<Rightarrow> (Inr ((), putSnapshotterBucket d ns sname bkt2, l1), w)))))"

definition Remove :: "('w, 'l) env \<Rightarrow> string \<Rightarrow> ctx \<Rightarrow> string \<Rightarrow> ('w, 'l) state \<Rightarrow>
    error option \<times> ('w, 'l) state" where
  "Remove env sname ctx key st =
     (case NamespaceRequired ctx of
        Inl e \<Rightarrow> (Some e, st)
      | Inr ns \<Rightarrow>
          (case update st (Remove_tx env sname ns key) of
             (Inl e, st1) \<Rightarrow> (Some e, st1)
           | (Inr _, st1) \<Rightarrow> (None, st1\<lparr>dirtySS := insert sname (dirtySS st1)\<rparr>)))"

subsection \<open>Walk\<close>

definition batchSize :: nat where
  "batchSize = 100"

type_synonym infoPair = "string \<times> Info"

text \<open>
  The cursor loop of one transaction, from the cursor's position: it appends to \<open>pairs\<close>
  until the batch is full and gives the pairs and the key it stopped at, the empty
  string when the cursor ran out. Every entry of a snapshotter's bucket is a sub-bucket.
\<close>

fun scan :: "srec bucket \<Rightarrow> infoPair list \<Rightarrow> infoPair list \<times> string" where
  "scan [] pairs = (pairs, '''')"
| "scan ((k, sbkt) # c) pairs =
     (if length pairs \<ge> batchSize then (pairs, k)
      else scan c (pairs @ [(bname sbkt, localInfo k sbkt)]))"

definition batch :: "sbucket option \<Rightarrow> string \<Rightarrow> infoPair list \<times> string" where
  "batch b lastKey =
     (case b of
        None \<Rightarrow> ([], lastKey)
      | Some bkt \<Rightarrow> scan (if lastKey = '''' then snaps bkt else seek (snaps bkt) lastKey) [])"

text \<open>
  The loop over the pairs of a batch, outside the transaction. The visitor is a function
  on a state of its own, \<open>'a\<close>.
\<close>

fun visitPairs :: "('w, 'l) env \<Rightarrow> 'w \<Rightarrow> ('a \<Rightarrow> Info \<Rightarrow> error option \<times> 'a) \<Rightarrow> infoPair list \<Rightarrow> 'a \<Rightarrow>
    error option \<times> 'a" where
  "visitPairs env w fn [] a = (None, a)"
| "visitPairs env w fn ((bkey, local) # pairs) a =
     (case drvStat env w bkey of
        Inl e \<Rightarrow> if e = NotFound then visitPairs env w fn pairs a else (Some e, a)
      | Inr i \<Rightarrow>
          (case fn a (overlayInfo i local) of
             (Some e, a1) \<Rightarrow> (Some e, a1)
           | (None, a1) \<Rightarrow> visitPairs env w fn pairs a1))"

text \<open>
  The outer loop, over a store that does not change during the walk. It may go on for
  ever, so its result is an option: \<open>None\<close> is "does not return".
\<close>

partial_function (option) walkLoop :: "('w, 'l) env \<Rightarrow> 'w \<Rightarrow> sbucket option \<Rightarrow>
    ('a \<Rightarrow> Info \<Rightarrow> error option \<times> 'a) \<Rightarrow> string \<Rightarrow> 'a \<Rightarrow> (error option \<times> 'a) option" where
  "walkLoop env w b fn lastKey a =
     (case batch b lastKey of
        (pairs, lastKey1) \<Rightarrow>
          (case visitPairs env w fn pairs a of
             (Some e, a1) \<Rightarrow> Some (Some e, a1)
           | (None, a1) \<Rightarrow>
               if lastKey1 = '''' then Some (None, a1) else walkLoop env w b fn lastKey1 a1))"

definition Walk :: "('w, 'l) env \<Rightarrow> string \<Rightarrow> ctx \<Rightarrow> ('a \<Rightarrow> Info \<Rightarrow> error option \<times> 'a) \<Rightarrow> 'a \<Rightarrow>
    ('w, 'l) state \<Rightarrow> (error option \<times> 'a) option" where
  "Walk env sname ctx fn a st =
     (case NamespaceRequired ctx of
        Inl e \<Rightarrow> Some (Some e, a)
      | Inr ns \<Rightarrow> walkLoop env (world st) (getSnapshotterBucket (store st) ns sname) fn '''' a)"

text \<open>
  Walk in the spec's words: the records in the order of their names; for each, the
  driver's Stat of its backend key; NotFound skips the record and any other error ends
  the walk with that error; else the visitor is given the overlaid info, and its error
  ends the walk.
\<close>

fun walkSpec :: "('w, 'l) env \<Rightarrow> 'w \<Rightarrow> ('a \<Rightarrow> Info \<Rightarrow> error option \<times> 'a) \<Rightarrow> srec bucket \<Rightarrow> 'a \<Rightarrow>
    error option \<times> 'a" where
  "walkSpec env w fn [] a = (None, a)"
| "walkSpec env w fn ((name, r) # rest) a =
     (case drvStat env w (bname r) of
        Inl e \<Rightarrow> if e = NotFound then walkSpec env w fn rest a else (Some e, a)
      | Inr di \<Rightarrow>
          (case fn a (overlayInfo di (localInfo name r)) of
             (None, a1) \<Rightarrow> walkSpec env w fn rest a1
           | (Some e, a1) \<Rightarrow> (Some e, a1)))"

subsection \<open>The garbage collector's forest: walkTree and pruneBranch\<close>

text \<open>
  A \<open>*treeNode\<close> is allocated in one place only, \<open>&treeNode{}\<close>, and stored at once in
  the map \<open>nodes\<close> under a name; so a pointer is the name it is stored under, the heap
  of nodes is the map, and \<open>children\<close> and \<open>roots\<close> hold names (with repetitions when
  the driver reports a name twice).
\<close>

record treeNode =
  info :: Info
  remove :: bool
  children :: "string list"

definition emptyNode :: treeNode where
  "emptyNode = \<lparr>info = emptyInfo, remove = False, children = []\<rparr>"

record forest =
  roots :: "string list"
  nodes :: "string \<rightharpoonup> treeNode"

definition emptyForest :: forest where
  "emptyForest = \<lparr>roots = [], nodes = Map.empty\<rparr>"

text \<open>The callback walkTree hands to the driver's Walk; it never returns an error.\<close>

definition visit :: "string set \<Rightarrow> forest \<Rightarrow> Info \<Rightarrow> forest" where
  "visit seen f i =
     (let isSeen = (Name i \<in> seen);
          node = (case nodes f (Name i) of None \<Rightarrow> emptyNode | Some n \<Rightarrow> n);
          nodes1 = (nodes f)(Name i \<mapsto> node\<lparr>remove := \<not> isSeen, info := i\<rparr>)
      in if Parent i = '''' then f\<lparr>roots := roots f @ [Name i], nodes := nodes1\<rparr>
         else
           (let parent = (case nodes1 (Parent i) of None \<Rightarrow> emptyNode | Some n \<Rightarrow> n)
            in f\<lparr>nodes := nodes1(Parent i \<mapsto> parent\<lparr>children := children parent @ [Name i]\<rparr>)\<rparr>))"

text \<open>The forest after the driver has passed the infos to the callback, in that order.\<close>

definition build :: "string set \<Rightarrow> Info list \<Rightarrow> forest" where
  "build seen infos = foldl (visit seen) emptyForest infos"

text \<open>
  pruneBranch, with the driver's Remove as \<open>rm\<close> acting on the driver's state. The
  recursion follows pointers, so it takes fuel: \<open>None\<close> is "has not returned within the
  fuel" (or a pointer that is not in the heap, which walkTree never builds).
  \<open>pruneAll\<close> is the loop over a list of nodes that stops at the first error: the loop
  over \<open>node.children\<close> in pruneBranch and the loop over \<open>roots\<close> in garbageCollect.
\<close>

fun pruneBranch :: "('w \<Rightarrow> string \<Rightarrow> error option \<times> 'w) \<Rightarrow> nat \<Rightarrow> (string \<rightharpoonup> treeNode) \<Rightarrow>
    string \<Rightarrow> 'w \<Rightarrow> (error option \<times> 'w) option"
  and pruneAll :: "('w \<Rightarrow> string \<Rightarrow> error option \<times> 'w) \<Rightarrow> nat \<Rightarrow> (string \<rightharpoonup> treeNode) \<Rightarrow>
    string list \<Rightarrow> 'w \<Rightarrow> (error option \<times> 'w) option" where
  "pruneBranch rm 0 h p w = None"
| "pruneBranch rm (Suc n) h p w =
     (case h p of
        None \<Rightarrow> None
      | Some node \<Rightarrow>
          (case pruneAll rm n h (children node) w of
             None \<Rightarrow> None
           | Some (Some e, w1) \<Rightarrow> Some (Some e, w1)
           | Some (None, w1) \<Rightarrow>
               if remove node then
                 (case rm w1 (Name (info node)) of
                    (Some e, w2) \<Rightarrow>
                      if e \<noteq> FailedPrecondition then Some (Some e, w2) else Some (None, w2)
                  | (None, w2) \<Rightarrow> Some (None, w2))
               else Some (None, w1)))"
| "pruneAll rm n h [] w = Some (None, w)"
| "pruneAll rm n h (c # cs) w =
     (case pruneBranch rm n h c w of
        None \<Rightarrow> None
      | Some (Some e, w1) \<Rightarrow> Some (Some e, w1)
      | Some (None, w1) \<Rightarrow> pruneAll rm n h cs w1)"

subsection \<open>garbageCollect\<close>

text \<open>
  The mark phase: the backend keys stored under any name, in the bucket of this
  snapshotter, in every namespace.
\<close>

definition mark :: "db \<Rightarrow> string \<Rightarrow> string set" where
  "mark d sname =
     set (concat (map (\<lambda>(ns, nb).
       (case map_of nb sname of
          None \<Rightarrow> []
        | Some ssbkt \<Rightarrow> filter (\<lambda>bkey. length bkey > 0) (map (\<lambda>(sk, sbkt). bname sbkt) (snaps ssbkt)))) d))"

definition walkTree :: "('w, 'l) env \<Rightarrow> string set \<Rightarrow> 'w \<Rightarrow> (error + forest) \<times> 'w" where
  "walkTree env seen w =
     (case drvWalk env w of
        ((infos, Some e), w1) \<Rightarrow> (Inl e, w1)
      | ((infos, None), w1) \<Rightarrow> (Inr (build seen infos), w1))"

text \<open>
  garbageCollect gives the duration \<open>d\<close> and the error. The deferred function runs
  last, on every path: it leaves \<open>d\<close> at zero when there is an error, and otherwise
  calls Cleanup, when the driver has one, and then reads the clock. The store is read
  without error here, so the mark phase has no error to return.
\<close>

definition deferred :: "('w, 'l) env \<Rightarrow> int \<Rightarrow> error option \<Rightarrow> 'w \<Rightarrow> (int \<times> error option) \<times> 'w" where
  "deferred env t1 err w =
     (let (err1, w1) =
            (if err = None then
               (case drvCleanup env of None \<Rightarrow> (err, w) | Some cleanup \<Rightarrow> cleanup w)
             else (err, w))
      in if err1 = None then ((now env w1 - t1, err1), w1) else ((0, err1), w1))"

definition garbageCollect :: "('w, 'l) env \<Rightarrow> string \<Rightarrow> nat \<Rightarrow> ('w, 'l) state \<Rightarrow>
    ((int \<times> error option) \<times> ('w, 'l) state) option" where
  "garbageCollect env sname fuel st =
     (let t1 = now env (world st);
          seen = mark (store st) sname
      in case walkTree env seen (world st) of
           (Inl e, w1) \<Rightarrow>
             (case deferred env t1 (Some e) w1 of (r, w2) \<Rightarrow> Some (r, st\<lparr>world := w2\<rparr>))
         | (Inr f, w1) \<Rightarrow>
             (case pruneAll (drvRemove env) fuel (nodes f) (roots f) w1 of
                None \<Rightarrow> None
              | Some (err, w2) \<Rightarrow>
                  (case deferred env t1 err w2 of (r, w3) \<Rightarrow> Some (r, st\<lparr>world := w3\<rparr>))))"

text \<open>A driver whose state also lists the keys Remove was invoked on, in order.\<close>

definition recording :: "('w \<Rightarrow> string \<Rightarrow> error option \<times> 'w) \<Rightarrow>
    ('w \<times> string list) \<Rightarrow> string \<Rightarrow> error option \<times> ('w \<times> string list)" where
  "recording rm = (\<lambda>(w, tr) k. case rm w k of (e, w1) \<Rightarrow> (e, (w1, tr @ [k])))"

text \<open>
  The sweep in the spec's words: the names of the nodes marked removable, children
  before their parent (post-order), and Remove invoked on each of them in that order,
  a FailedPrecondition tolerated and any other error ending the sweep.
\<close>

fun removal_order :: "nat \<Rightarrow> (string \<rightharpoonup> treeNode) \<Rightarrow> string \<Rightarrow> string list option"
  and removal_orders :: "nat \<Rightarrow> (string \<rightharpoonup> treeNode) \<Rightarrow> string list \<Rightarrow> string list option" where
  "removal_order 0 h p = None"
| "removal_order (Suc n) h p =
     (case h p of
        None \<Rightarrow> None
      | Some node \<Rightarrow>
          (case removal_orders n h (children node) of
             None \<Rightarrow> None
           | Some ks \<Rightarrow> Some (ks @ (if remove node then [Name (info node)] else []))))"
| "removal_orders n h [] = Some []"
| "removal_orders n h (c # cs) =
     (case removal_order n h c of
        None \<Rightarrow> None
      | Some ks \<Rightarrow> (case removal_orders n h cs of None \<Rightarrow> None | Some ks' \<Rightarrow> Some (ks @ ks')))"

fun removeEach :: "('w \<Rightarrow> string \<Rightarrow> error option \<times> 'w) \<Rightarrow> string list \<Rightarrow> 'w \<Rightarrow> error option \<times> 'w" where
  "removeEach rm [] w = (None, w)"
| "removeEach rm (k # ks) w =
     (case rm w k of
        (None, w1) \<Rightarrow> removeEach rm ks w1
      | (Some e, w1) \<Rightarrow> if e = FailedPrecondition then removeEach rm ks w1 else (Some e, w1))"

text \<open>The parent relation the driver reports: the pairs (node, its parent).\<close>

definition parentRel :: "Info list \<Rightarrow> (string \<times> string) set" where
  "parentRel infos = set (map (\<lambda>i. (Name i, Parent i)) (filter (\<lambda>i. Parent i \<noteq> '''') infos))"

text \<open>
  What walkTree keeps true of its forest with respect to a relation R on names: every
  child pointer is a pair of R and points into the heap, and so does every root.
\<close>

definition linked :: "forest \<Rightarrow> (string \<times> string) set \<Rightarrow> bool" where
  "linked f R \<longleftrightarrow>
     (\<forall>p n c. nodes f p = Some n \<longrightarrow> c \<in> set (children n) \<longrightarrow> (c, p) \<in> R \<and> nodes f c \<noteq> None) \<and>
     (\<forall>r \<in> set (roots f). nodes f r \<noteq> None)"

text \<open>The lineage A (root), B with parent A, C with parent B, as the driver reports it.\<close>

definition chainABC :: "Info list" where
  "chainABC = [emptyInfo\<lparr>Name := ''A''\<rparr>, emptyInfo\<lparr>Name := ''B'', Parent := ''A''\<rparr>,
     emptyInfo\<lparr>Name := ''C'', Parent := ''B''\<rparr>]"

subsection \<open>Sequences of calls\<close>

text \<open>
  The calls of one snapshotter that write to the metadata store, and the state a call
  leaves. In a sequence each call runs whether or not the one before it succeeded.
\<close>

datatype call =
    CallPrepare ctx string string "opt list"
  | CallView ctx string string "opt list"
  | CallCommit ctx string string "opt list"
  | CallRemove ctx string
  | CallUpdate ctx Info "string list"

fun step :: "('w, 'l) env \<Rightarrow> string \<Rightarrow> ('w, 'l) state \<Rightarrow> call \<Rightarrow> ('w, 'l) state" where
  "step env sname st (CallPrepare ctx key parent opts) = snd (Prepare env sname ctx key parent opts st)"
| "step env sname st (CallView ctx key parent opts) = snd (View env sname ctx key parent opts st)"
| "step env sname st (CallCommit ctx name key opts) = snd (Commit env sname ctx name key opts st)"
| "step env sname st (CallRemove ctx key) = snd (Remove env sname ctx key st)"
| "step env sname st (CallUpdate ctx i fieldpaths) = snd (Update env sname ctx i fieldpaths st)"

text \<open>
  The backend key stored under a name, if there is a record of that name; the key a
  call issues, which is the one a successful Prepare, View or Commit has stored under
  the new name; and the keys a sequence of calls issues, in order.
\<close>

definition keyOf :: "db \<Rightarrow> string \<Rightarrow> string \<Rightarrow> string \<Rightarrow> string list" where
  "keyOf d ns sname name =
     (case getSnapshotterBucket d ns sname of
        None \<Rightarrow> []
      | Some b \<Rightarrow> (case map_of (snaps b) name of None \<Rightarrow> [] | Some r \<Rightarrow> [bname r]))"

fun issued :: "('w, 'l) env \<Rightarrow> string \<Rightarrow> ('w, 'l) state \<Rightarrow> call \<Rightarrow> string list" where
  "issued env sname st (CallPrepare ctx key parent opts) =
     (case NamespaceRequired ctx of
        Inl e \<Rightarrow> []
      | Inr ns \<Rightarrow>
          (case Prepare env sname ctx key parent opts st of
             (Inl e, st') \<Rightarrow> []
           | (Inr m, st') \<Rightarrow> keyOf (store st') ns sname key))"
| "issued env sname st (CallView ctx key parent opts) =
     (case NamespaceRequired ctx of
        Inl e \<Rightarrow> []
      | Inr ns \<Rightarrow>
          (case View env sname ctx key parent opts st of
             (Inl e, st') \<Rightarrow> []
           | (Inr m, st') \<Rightarrow> keyOf (store st') ns sname key))"
| "issued env sname st (CallCommit ctx name key opts) =
     (case NamespaceRequired ctx of
        Inl e \<Rightarrow> []
      | Inr ns \<Rightarrow>
          (case Commit env sname ctx name key opts st of
             (Some e, st') \<Rightarrow> []
           | (None, st') \<Rightarrow> keyOf (store st') ns sname name))"
| "issued env sname st (CallRemove ctx key) = []"
| "issued env sname st (CallUpdate ctx i fieldpaths) = []"

fun history :: "('w, 'l) env \<Rightarrow> string \<Rightarrow> ('w, 'l) state \<Rightarrow> call list \<Rightarrow> string list" where
  "history env sname st [] = []"
| "history env sname st (c # cs) = issued env sname st c @ history env sname (step env sname st c) cs"

subsection \<open>Helpers of the proofs\<close>

text \<open>The pair the cursor loop makes of an entry, and the key at the head of a cursor.\<close>

definition mkPair :: "string \<times> srec \<Rightarrow> infoPair" where
  "mkPair = (\<lambda>(k, sbkt). (bname sbkt, localInfo k sbkt))"

definition nextKey :: "srec bucket \<Rightarrow> string" where
  "nextKey c = (case c of [] \<Rightarrow> '''' | (k, _) # _ \<Rightarrow> k)"

text \<open>
  The sequence counter of the snapshotter in a namespace, zero when the bucket is not
  there; and the invariant behind the uniqueness of the backend keys: after n calls no
  counter is above n, and every key issued so far was made of a namespace without a
  slash and of a number that is not above that namespace's counter.
\<close>

definition wseq :: "db \<Rightarrow> string \<Rightarrow> string \<Rightarrow> 64 word" where
  "wseq d ns sname = (case getSnapshotterBucket d ns sname of None \<Rightarrow> 0 | Some b \<Rightarrow> bsequence b)"

definition seqInv :: "nat \<Rightarrow> db \<Rightarrow> string \<Rightarrow> string list \<Rightarrow> bool" where
  "seqInv n d sname H \<longleftrightarrow>
     (\<forall>ns. unat (wseq d ns sname) \<le> n) \<and>
     (\<forall>h \<in> set H. \<exists>ns i k. CHR ''/'' \<notin> set ns \<and> h = createKey i ns k \<and> unat i \<le> unat (wseq d ns sname))"

subsection \<open>Example data\<close>

text \<open>
  A driver over a clock: its state is the time, every call takes time, Stat knows every
  key; no label is refused and no lease fails.
\<close>

definition clockEnv :: "(int, unit) env" where
  "clockEnv = \<lparr>drvStat = (\<lambda>w k. Inr emptyInfo),
     drvPrepare = (\<lambda>w k p opts. (Inr [], w + 1)),
     drvView = (\<lambda>w k p opts. (Inr [], w + 1)),
     drvCommit = (\<lambda>w n k. (None, w + 1)),
     drvRemove = (\<lambda>w k. (None, w + 1)),
     drvWalk = (\<lambda>w. ((chainABC, None), w + 2)),
     drvCleanup = Some (\<lambda>w. (None, w + 10)),
     now = (\<lambda>w. w),
     validate = (\<lambda>l. None),
     addSnapshotLease = (\<lambda>s k l. Inr l),
     removeSnapshotLease = (\<lambda>s k l. Inr l)\<rparr>"

text \<open>The same driver, answering a given error to Stat of the backend key \<open>bb\<close>.\<close>

definition pickyEnv :: "error \<Rightarrow> (int, unit) env" where
  "pickyEnv e = clockEnv\<lparr>drvStat := \<lambda>w k. if k = ''bb'' then Inl e else Inr emptyInfo\<rparr>"

text \<open>A visitor that lists the names it is given.\<close>

definition names :: "string list \<Rightarrow> Info \<Rightarrow> error option \<times> string list" where
  "names acc i = (None, acc @ [Name i])"

text \<open>A visitor that lists the names it is given and fails at a given name.\<close>

definition namesUntil :: "string \<Rightarrow> string list \<Rightarrow> Info \<Rightarrow> error option \<times> string list" where
  "namesUntil bad acc i = (if Name i = bad then (Some (Other ''stop''), acc) else (None, acc @ [Name i]))"

definition ns1 :: ctx where "ns1 = \<lparr>ctxNamespace = Some ''ns1''\<rparr>"

definition st0 :: "(int, unit) state" where
  "st0 = \<lparr>world = 0, store = [], leases = (), dirtySS = {}\<rparr>"

text \<open>A store with one active snapshot, prepared at time 0 in namespace ns1.\<close>

definition stActive :: "(int, unit) state" where
  "stActive = \<lparr>world = 5,
     store = [(''ns1'', [(''overlayfs'', \<lparr>bsequence = 1, snaps = [(''active'',
        \<lparr>bname = ''ns1/1/active'', bparent = '''', bchildren = {}, bcreated = 0, bupdated = 0,
           blabels = None\<rparr>)]\<rparr>)])],
     leases = (), dirtySS = {}\<rparr>"

text \<open>An Update that sets the label a = 1.\<close>

definition updA :: Info where
  "updA = emptyInfo\<lparr>Name := ''active'', Labels := Some [(''a'', ''1'')]\<rparr>"

text \<open>
  The fields of an info that the examples compare: parent, labels, created, updated.
\<close>

definition shown :: "error + Info \<Rightarrow> error + string \<times> labels \<times> int \<times> int" where
  "shown r = map_sum id (\<lambda>i. (Parent i, Labels i, Created i, Updated i)) r"

text \<open>
  A store at time 7 with the committed snapshot \<open>base\<close> and, on top of it, the active
  snapshot \<open>active\<close>, created at 0, with the labels a = 1 and c = 3 that an Update
  set at 5.
\<close>

definition lineageActive :: srec where
  "lineageActive = \<lparr>bname = ''ns1/2/active'', bparent = ''base'', bchildren = {}, bcreated = 0,
     bupdated = 5, blabels = Some [(''a'', ''1''), (''c'', ''3'')]\<rparr>"

definition lineage :: "srec bucket" where
  "lineage = [(''active'', lineageActive),
     (''base'', \<lparr>bname = ''ns1/1/base'', bparent = '''', bchildren = {''active''}, bcreated = 0,
        bupdated = 0, blabels = None\<rparr>)]"

definition stLineage :: "(int, unit) state" where
  "stLineage = \<lparr>world = 7,
     store = [(''ns1'', [(''overlayfs'', \<lparr>bsequence = 2, snaps = lineage\<rparr>)])],
     leases = (), dirtySS = {}\<rparr>"

text \<open>
  An Update of \<open>active\<close> whose supplied label map has the label b = 2 and no entry for a.
\<close>

definition updDropA :: Info where
  "updDropA = emptyInfo\<lparr>Name := ''active'', Labels := Some [(''b'', ''2'')]\<rparr>"

text \<open>A bucket of 102 records named k, kk, kkk and so on.\<close>

definition manyRecs :: "srec bucket" where
  "manyRecs = map (\<lambda>n. (replicate (Suc n) CHR ''k'', emptyRec\<lparr>bname := replicate (Suc n) CHR ''b''\<rparr>)) [0..<102]"

definition stMany :: "(int, unit) state" where
  "stMany = \<lparr>world = 0,
     store = [(''ns1'', [(''overlayfs'', \<lparr>bsequence = 102, snaps = manyRecs\<rparr>)])],
     leases = (), dirtySS = {}\<rparr>"

text \<open>
  A driver whose state also lists the keys its Remove was invoked on: the driver of
  \<open>env\<close> with \<open>recording\<close> around its Remove.
\<close>

definition recordingEnv :: "('w, 'l) env \<Rightarrow> ('w \<times> string list, 'l) env" where
  "recordingEnv env = \<lparr>
     drvStat = (\<lambda>(w, tr) k. drvStat env w k),
     drvPrepare = (\<lambda>(w, tr) k p opts. case drvPrepare env w k p opts of (r, w1) \<Rightarrow> (r, (w1, tr))),
     drvView = (\<lambda>(w, tr) k p opts. case drvView env w k p opts of (r, w1) \<Rightarrow> (r, (w1, tr))),
     drvCommit = (\<lambda>(w, tr) n k. case drvCommit env w n k of (r, w1) \<Rightarrow> (r, (w1, tr))),
     drvRemove = recording (drvRemove env),
     drvWalk = (\<lambda>(w, tr). case drvWalk env w of (r, w1) \<Rightarrow> (r, (w1, tr))),
     drvCleanup = map_option (\<lambda>cleanup (w, tr). case cleanup w of (r, w1) \<Rightarrow> (r, (w1, tr))) (drvCleanup env),
     now = (\<lambda>(w, tr). now env w),
     validate = validate env,
     addSnapshotLease = addSnapshotLease env,
     removeSnapshotLease = removeSnapshotLease env\<rparr>"


text \<open>An empty store, with a driver state that records the Remove calls.\<close>

definition stRec :: "(int \<times> string list, unit) state" where
  "stRec = \<lparr>world = (0, []), store = [], leases = (), dirtySS = {}\<rparr>"

text \<open>
  The clock driver with a Remove that answers a given error for B, with a Walk that
  fails, and with a Cleanup that fails.
\<close>

definition refusing :: "error \<Rightarrow> (int, unit) env" where
  "refusing e = clockEnv\<lparr>drvRemove := \<lambda>w k. (if k = ''B'' then Some e else None, w + 1)\<rparr>"

definition failingWalk :: "(int, unit) env" where
  "failingWalk = clockEnv\<lparr>drvWalk := \<lambda>w. (([], Some (Other ''walk'')), w + 2)\<rparr>"

definition failingCleanup :: "(int, unit) env" where
  "failingCleanup = clockEnv\<lparr>drvCleanup := Some (\<lambda>w. (Some (Other ''cleanup''), w + 10))\<rparr>"

text \<open>Prepare x, Remove x, Prepare y, Remove y and View x, all in namespace ns1.\<close>

definition fiveCalls :: "call list" where
  "fiveCalls = [CallPrepare ns1 ''x'' '''' [], CallRemove ns1 ''x'', CallPrepare ns1 ''y'' '''' [],
     CallRemove ns1 ''y'', CallView ns1 ''x'' '''' []]"

section \<open>Theorems\<close>

subsection \<open>overlayInfo\<close>

text \<open>
  C1 (the fields other than the labels, and the nil case): the result of overlayInfo is
  the driver's info with Name, Parent, Created and Updated taken from the local record;
  when the driver's info has no label map the local one is used as it is.
\<close>

lemma overlayInfo_fields:
  "Name (overlayInfo i ov) = Name ov \<and>
   Parent (overlayInfo i ov) = Parent ov \<and>
   Created (overlayInfo i ov) = Created ov \<and>
   Updated (overlayInfo i ov) = Updated ov \<and>
   Kind (overlayInfo i ov) = Kind i \<and>
   (Labels i = None \<longrightarrow> Labels (overlayInfo i ov) = Labels ov)"
  by (simp add: overlayInfo_def)

text \<open>
  C1 (the merge): with the driver's labels a = 1 and the local labels b = 2, the local
  label b is missing from the result of overlayInfo, which carries the driver's map only.
\<close>

theorem overlayInfo_drops_local_labels:
  "Labels (overlayInfo (emptyInfo\<lparr>Labels := Some [(''a'', ''1'')]\<rparr>)
     (emptyInfo\<lparr>Name := ''s'', Labels := Some [(''b'', ''2'')]\<rparr>)) = Some [(''a'', ''1'')] \<and>
   lookup (Labels (overlayInfo (emptyInfo\<lparr>Labels := Some [(''a'', ''1'')]\<rparr>)
     (emptyInfo\<lparr>Name := ''s'', Labels := Some [(''b'', ''2'')]\<rparr>))) ''b'' = ''''"
  by (simp add: overlayInfo_def emptyInfo_def lookup_def)

subsection \<open>The store\<close>

lemma map_of_bput [simp]: "map_of (bput b k v) = (map_of b)(k \<mapsto> v)"
  by (induction b) (auto simp: fun_eq_iff)

lemma map_of_bdelete [simp]: "map_of (bdelete b k) = (map_of b)(k := None)"
  by (induction b) (auto simp: bdelete_def fun_eq_iff)

lemma lookup_modify:
  "map_of (snaps (modify b k f)) k' = map_option (\<lambda>r. if k' = k then f r else r) (map_of (snaps b) k')"
proof -
  have "map_of (map (\<lambda>(k', r). if k' = k then (k', f r) else (k', r)) xs) k'
      = map_option (\<lambda>r. if k' = k then f r else r) (map_of xs k')" for xs
    by (induction xs) auto
  then show ?thesis by (simp add: modify_def)
qed

lemma snaps_modify:
  "map_of (snaps (modify b k f)) =
     (case map_of (snaps b) k of None \<Rightarrow> map_of (snaps b) | Some r \<Rightarrow> (map_of (snaps b))(k \<mapsto> f r))"
proof (rule ext)
  fix k'
  show "map_of (snaps (modify b k f)) k' =
     (case map_of (snaps b) k of None \<Rightarrow> map_of (snaps b) | Some r \<Rightarrow> (map_of (snaps b))(k \<mapsto> f r)) k'"
    by (cases "map_of (snaps b) k'"; cases "k' = k") (auto simp: lookup_modify split: option.splits)
qed

lemma keys_modify [simp]: "map fst (snaps (modify b k f)) = map fst (snaps b)"
  by (simp add: modify_def comp_def split_def)

lemma bsequence_modify [simp]: "bsequence (modify b k f) = bsequence b"
  by (simp add: modify_def)

lemma get_put [simp]:
  "getSnapshotterBucket (putSnapshotterBucket d ns n b) ns' n' =
     (if ns' = ns \<and> n' = n then Some b else getSnapshotterBucket d ns' n')"
  by (auto simp: getSnapshotterBucket_def putSnapshotterBucket_def split: option.splits)

lemma keys_bput: "fst ` set (bput b k v) = insert k (fst ` set b)"
proof -
  have "dom (map_of (bput b k v)) = insert k (dom (map_of b))" by simp
  then show ?thesis by (simp only: dom_map_of_conv_image_fst)
qed

lemma sorted_bput:
  "sorted_wrt (<) (map fst b) \<Longrightarrow> sorted_wrt (<) (map fst (bput b k v))"
proof (induction b)
  case Nil
  then show ?case by simp
next
  case (Cons x b)
  obtain k' v' where x: "x = (k', v')" by (cases x)
  from Cons.prems have tl: "sorted_wrt (<) (map fst b)" and hd: "\<forall>y \<in> fst ` set b. k' < y"
    by (auto simp: x)
  show ?case
  proof (cases "k < k'")
    case True
    then show ?thesis using Cons.prems hd by (auto simp: x)
  next
    case False
    show ?thesis
    proof (cases "k = k'")
      case True
      then show ?thesis using Cons.prems by (simp add: x)
    next
      case ne: False
      with False have "k' < k" by simp
      then have "\<forall>y \<in> fst ` set (bput b k v). k' < y" using hd by (simp add: keys_bput)
      then show ?thesis using False ne Cons.IH[OF tl] by (auto simp: x)
    qed
  qed
qed

lemma sorted_bdelete:
  "sorted_wrt (<) (map fst b) \<Longrightarrow> sorted_wrt (<) (map fst (bdelete b k))"
  by (induction b) (auto simp: bdelete_def)

lemma update_Inr:
  "update st fn = (Inr x, st') \<Longrightarrow>
   \<exists>d l w. fn (store st, leases st) (world st) = (Inr (x, d, l), w) \<and>
     st' = st\<lparr>world := w, store := d, leases := l\<rparr>"
  by (auto simp: update_def split: prod.splits sum.splits)

lemma ns1_required: "NamespaceRequired ns1 = Inr ''ns1''"
  by code_simp

lemma bucket_stActive: "getSnapshotterBucket (store stActive) ''ns1'' ''overlayfs'' = Some \<lparr>bsequence = 1, snaps = [(''active'',
        \<lparr>bname = ''ns1/1/active'', bparent = '''', bchildren = {}, bcreated = 0, bupdated = 0,
           blabels = None\<rparr>)]\<rparr>"
  by (simp add: stActive_def getSnapshotterBucket_def)

subsection \<open>Backend keys\<close>

lemma digit_inj: "m < 10 \<Longrightarrow> n < 10 \<Longrightarrow> digit m = digit n \<Longrightarrow> m = n"
proof -
  assume m: "m < 10" and n: "n < 10" and eq: "digit m = digit n"
  have "(of_char (digit m) :: nat) = of_char (digit n)" using eq by simp
  then have "(48 + m) mod 256 = (48 + n) mod 256" by (simp add: digit_def)
  with m n show "m = n" by simp
qed

lemma digit_not_slash: "n < 10 \<Longrightarrow> digit n \<noteq> CHR ''/''"
proof
  assume n: "n < 10" and eq: "digit n = CHR ''/''"
  have "(of_char (digit n) :: nat) = of_char CHR ''/''" using eq by simp
  then have "(48 + n) mod 256 = 47" by (simp add: digit_def)
  with n show False by simp
qed

lemma decimal_not_Nil: "decimal n \<noteq> []"
  by (subst decimal.simps) simp

lemma slash_notin_decimal: "CHR ''/'' \<notin> set (decimal n)"
proof (induction n rule: decimal.induct)
  case (1 n)
  show ?case
  proof (cases "n < 10")
    case True
    then show ?thesis using digit_not_slash[of n] by (subst decimal.simps) auto
  next
    case False
    then show ?thesis using 1 digit_not_slash[of "n mod 10"]
      by (subst decimal.simps) auto
  qed
qed

lemma decimal_inj: "decimal m = decimal n \<Longrightarrow> m = n"
proof (induction m arbitrary: n rule: decimal.induct)
  case (1 m)
  show ?case
  proof (cases "m < 10")
    case True
    show ?thesis
    proof (cases "n < 10")
      case nT: True
      from "1.prems" True nT have "digit m = digit n"
        by (simp add: decimal.simps[of m] decimal.simps[of n])
      then show ?thesis using True nT by (rule_tac digit_inj)
    next
      case nF: False
      from "1.prems" True nF have "[digit m] = decimal (n div 10) @ [digit (n mod 10)]"
        by (simp add: decimal.simps[of m] decimal.simps[of n])
      then show ?thesis using decimal_not_Nil[of "n div 10"] by simp
    qed
  next
    case False
    show ?thesis
    proof (cases "n < 10")
      case nT: True
      from "1.prems" False nT have "decimal (m div 10) @ [digit (m mod 10)] = [digit n]"
        by (simp add: decimal.simps[of m] decimal.simps[of n])
      then show ?thesis using decimal_not_Nil[of "m div 10"] by simp
    next
      case nF: False
      from "1.prems" False nF have eq: "decimal (m div 10) @ [digit (m mod 10)] = decimal (n div 10) @ [digit (n mod 10)]"
        by (simp add: decimal.simps[of m] decimal.simps[of n])
      then have a: "decimal (m div 10) = decimal (n div 10)" and b: "digit (m mod 10) = digit (n mod 10)"
        by simp_all
      from "1.IH"[OF False a] have "m div 10 = n div 10" .
      moreover from b have "m mod 10 = n mod 10" by (intro digit_inj) simp_all
      ultimately show ?thesis by (metis div_mult_mod_eq)
    qed
  qed
qed

lemma split_at_first:
  "c \<notin> set a \<Longrightarrow> c \<notin> set a' \<Longrightarrow> a @ c # r = a' @ c # r' \<Longrightarrow> a = a' \<and> r = r'"
proof (induction a arbitrary: a')
  case Nil
  then show ?case by (cases a') auto
next
  case (Cons x a)
  then show ?case by (cases a') auto
qed

lemma createKey_inj:
  "createKey i ns k = createKey i' ns' k' \<Longrightarrow>
   ns = ns' \<or> (CHR ''/'' \<notin> set ns \<and> CHR ''/'' \<notin> set ns') \<Longrightarrow>
   i = i' \<and> ns = ns' \<and> k = k'"
proof -
  assume eq: "createKey i ns k = createKey i' ns' k'"
    and ns: "ns = ns' \<or> (CHR ''/'' \<notin> set ns \<and> CHR ''/'' \<notin> set ns')"
  have eq': "ns @ CHR ''/'' # (decimal (unat i) @ CHR ''/'' # k) = ns' @ CHR ''/'' # (decimal (unat i') @ CHR ''/'' # k')"
    using eq by (simp add: createKey_def)
  have "ns = ns' \<and> decimal (unat i) @ CHR ''/'' # k = decimal (unat i') @ CHR ''/'' # k'"
    using ns
  proof
    assume "ns = ns'"
    then show ?thesis using eq' by simp
  next
    assume "CHR ''/'' \<notin> set ns \<and> CHR ''/'' \<notin> set ns'"
    then show ?thesis using split_at_first[OF _ _ eq'] by blast
  qed
  then have n: "ns = ns'" and r: "decimal (unat i) @ CHR ''/'' # k = decimal (unat i') @ CHR ''/'' # k'"
    by simp_all
  from split_at_first[OF slash_notin_decimal slash_notin_decimal r]
  have "decimal (unat i) = decimal (unat i')" and kk: "k = k'" by simp_all
  then have "unat i = unat i'" by (intro decimal_inj)
  then have "i = i'" by (rule word_unat_eq_iff[THEN iffD2])
  with n kk show ?thesis by simp
qed

lemma createSnapshot_tx_result:
  assumes run: "createSnapshot_tx env sname ns key parent readonly opts base (d, l) w = (Inr (m, d', l'), w')"
  shows "\<exists>bkt' r. getSnapshotterBucket d' ns sname = Some bkt' \<and>
      bsequence bkt' = (case getSnapshotterBucket d ns sname of None \<Rightarrow> 0 | Some b \<Rightarrow> bsequence b) + 1 \<and>
      map_of (snaps bkt') key = Some r \<and>
      bname r = createKey ((case getSnapshotterBucket d ns sname of None \<Rightarrow> 0 | Some b \<Rightarrow> bsequence b) + 1) ns key"
  using run
  unfolding createSnapshot_tx_def Let_def NextSequence_def createSnapshotterBucket_def
  by (auto simp: snaps_modify emptyRec_def emptyBucket_def split: option.splits sum.splits prod.splits if_splits)

lemma Remove_tx_result:
  assumes run: "Remove_tx env sname ns key (d, l) w = (Inr (x, d', l'), w')"
  shows "\<exists>bkt bkt'. getSnapshotterBucket d ns sname = Some bkt \<and>
      getSnapshotterBucket d' ns sname = Some bkt' \<and> bsequence bkt' = bsequence bkt"
  using run
  unfolding Remove_tx_def Let_def
  by (auto simp: snaps_modify split: option.splits sum.splits prod.splits if_splits)

lemma createSnapshot_result:
  assumes run: "createSnapshot env sname ctx key parent readonly opts st = (Inr m, st')"
  shows "\<exists>ns bkt' r. NamespaceRequired ctx = Inr ns \<and>
      getSnapshotterBucket (store st') ns sname = Some bkt' \<and>
      bsequence bkt' = (case getSnapshotterBucket (store st) ns sname of None \<Rightarrow> 0 | Some b \<Rightarrow> bsequence b) + 1 \<and>
      map_of (snaps bkt') key = Some r \<and>
      bname r = createKey (bsequence bkt') ns key"
proof -
  from run obtain ns where ns: "NamespaceRequired ctx = Inr ns"
    by (auto simp: createSnapshot_def split: sum.splits)
  from run ns obtain base where
    up: "update st (createSnapshot_tx env sname ns key parent readonly opts base) = (Inr m, st')"
    by (auto simp: createSnapshot_def split: sum.splits option.splits)
  from update_Inr[OF up] obtain d l w where
    tx: "createSnapshot_tx env sname ns key parent readonly opts base (store st, leases st) (world st) = (Inr (m, d, l), w)"
    and st': "st' = st\<lparr>world := w, store := d, leases := l\<rparr>" by blast
  from createSnapshot_tx_result[OF tx] ns show ?thesis by (auto simp: st')
qed

lemma Remove_result:
  assumes run: "Remove env sname ctx key st = (None, st')"
  shows "\<exists>ns bkt bkt'. NamespaceRequired ctx = Inr ns \<and>
      getSnapshotterBucket (store st) ns sname = Some bkt \<and>
      getSnapshotterBucket (store st') ns sname = Some bkt' \<and> bsequence bkt' = bsequence bkt"
proof -
  from run obtain ns where ns: "NamespaceRequired ctx = Inr ns"
    by (auto simp: Remove_def split: sum.splits)
  from run ns obtain x st1 where
    up: "update st (Remove_tx env sname ns key) = (Inr x, st1)"
    and st': "st' = st1\<lparr>dirtySS := insert sname (dirtySS st1)\<rparr>"
    by (auto simp: Remove_def split: sum.splits prod.splits)
  from update_Inr[OF up] obtain d l w where
    tx: "Remove_tx env sname ns key (store st, leases st) (world st) = (Inr (x, d, l), w)"
    and st1: "st1 = st\<lparr>world := w, store := d, leases := l\<rparr>" by blast
  from Remove_tx_result[OF tx] ns show ?thesis by (auto simp: st' st1)
qed

lemma recreate_fresh_key:
  assumes p1: "createSnapshot env sname ctx key parent readonly opts st = (Inr m, st1)"
    and rm: "Remove env sname ctx key st1 = (None, st2)"
    and p2: "createSnapshot env sname ctx key parent' readonly' opts' st2 = (Inr m', st3)"
  shows "getKey (store st1) (projr (NamespaceRequired ctx)) sname key
       \<noteq> getKey (store st3) (projr (NamespaceRequired ctx)) sname key"
proof -
  from createSnapshot_result[OF p1] obtain ns b1 r1 where
    ns: "NamespaceRequired ctx = Inr ns" and
    b1: "getSnapshotterBucket (store st1) ns sname = Some b1" "map_of (snaps b1) key = Some r1"
      "bname r1 = createKey (bsequence b1) ns key" by blast
  from Remove_result[OF rm] ns b1 obtain b2 where
    b2: "getSnapshotterBucket (store st2) ns sname = Some b2" "bsequence b2 = bsequence b1" by auto
  from createSnapshot_result[OF p2] ns b2 obtain b3 r3 where
    b3: "getSnapshotterBucket (store st3) ns sname = Some b3" "map_of (snaps b3) key = Some r3"
      "bname r3 = createKey (bsequence b3) ns key" "bsequence b3 = bsequence b1 + 1" by auto
  have "createKey (bsequence b1) ns key \<noteq> createKey (bsequence b1 + 1) ns key"
    using createKey_inj[of "bsequence b1" ns key "bsequence b1 + 1" ns key] by auto
  then show ?thesis using ns b1 b3 by (simp add: getKey_def)
qed

text \<open>How the calls move the sequence counters of the snapshotter.\<close>

lemma not_alnum_slash: "\<not> isAlnum CHR ''/''"
  by (simp add: isAlnum_def isAlpha_def less_eq_char_def)

lemma nsMatch_no_slash: "nsMatch q s \<Longrightarrow> CHR ''/'' \<notin> set s"
proof (induction s arbitrary: q)
  case Nil
  then show ?case by simp
next
  case (Cons c cs)
  from Cons.prems have "c \<noteq> CHR ''/''"
    using not_alnum_slash by (auto simp: isAlnum_def split: if_splits)
  moreover from Cons.prems obtain q' where "nsMatch q' cs"
    by (auto split: if_splits)
  ultimately show ?case using Cons.IH by auto
qed

lemma NamespaceRequired_no_slash: "NamespaceRequired ctx = Inr ns \<Longrightarrow> CHR ''/'' \<notin> set ns"
  by (auto simp: NamespaceRequired_def Validate_def split: option.splits if_splits dest: nsMatch_no_slash)

lemma wseq_put [simp]:
  "wseq (putSnapshotterBucket d ns sname b) ns' sname = (if ns' = ns then bsequence b else wseq d ns' sname)"
  by (simp add: wseq_def)

lemma wseq_create [simp]:
  "wseq (fst (createSnapshotterBucket d ns sname)) ns' sname = wseq d ns' sname"
  by (auto simp: wseq_def createSnapshotterBucket_def emptyBucket_def split: option.splits)

lemma keyOf_put [simp]:
  "keyOf (putSnapshotterBucket d ns sname b) ns sname name =
     (case map_of (snaps b) name of None \<Rightarrow> [] | Some r \<Rightarrow> [bname r])"
  by (simp add: keyOf_def)

lemma update_store:
  "update st fn = (r, st') \<Longrightarrow>
   store st' = store st \<or> (\<exists>x d l w. fn (store st, leases st) (world st) = (Inr (x, d, l), w) \<and> store st' = d)"
  by (auto simp: update_def split: prod.splits sum.splits)

lemma update_Inl: "update st fn = (Inl e, st') \<Longrightarrow> store st' = store st"
  by (auto simp: update_def split: prod.splits sum.splits)

lemma wseq_bucket: "getSnapshotterBucket d ns sname = Some bkt \<Longrightarrow> wseq d ns sname = bsequence bkt"
  by (simp add: wseq_def)

lemma createSnapshot_tx_seq:
  assumes run: "createSnapshot_tx env sname ns key parent readonly opts base (d, l) w = (Inr (m, d', l'), w')"
  shows "(\<forall>ns'. ns' \<noteq> ns \<longrightarrow> wseq d' ns' sname = wseq d ns' sname) \<and>
     wseq d' ns sname = wseq d ns sname + 1 \<and>
     keyOf d' ns sname key = [createKey (wseq d' ns sname) ns key]"
proof -
  obtain d1 bkt where cb: "createSnapshotterBucket d ns sname = (d1, bkt)"
    by (cases "createSnapshotterBucket d ns sname")
  have d1: "d1 = fst (createSnapshotterBucket d ns sname)" using cb by simp
  have sq: "bsequence bkt = wseq d ns sname"
    using cb by (auto simp: createSnapshotterBucket_def wseq_def emptyBucket_def split: option.splits)
  let ?nk = "createKey (bsequence bkt + 1) ns key"
  let ?b1 = "bkt\<lparr>snaps := bput (snaps bkt) key emptyRec\<rparr>"
  let ?b2 = "if parent \<noteq> [] then
       modify (modify ?b1 parent (\<lambda>r. r\<lparr>bchildren := insert key (bchildren r)\<rparr>))
         key (\<lambda>r. r\<lparr>bparent := parent\<rparr>) else ?b1"
  let ?b4 = "modify (?b2\<lparr>bsequence := bsequence ?b2 + 1\<rparr>) key (\<lambda>r. r\<lparr>bname := ?nk\<rparr>)"
  let ?b6 = "modify (modify ?b4 key (\<lambda>r. r\<lparr>bcreated := now env w, bupdated := now env w\<rparr>))
       key (\<lambda>r. r\<lparr>blabels := fst (WriteLabels (Labels base))\<rparr>)"
  have d': "d' = putSnapshotterBucket d1 ns sname ?b6"
    using run cb
    unfolding createSnapshot_tx_def Let_def NextSequence_def
    by (auto split: option.splits sum.splits prod.splits if_splits)
  have s6: "bsequence ?b6 = bsequence bkt + 1" by simp
  have k2: "\<exists>r. map_of (snaps ?b2) key = Some r"
    by (auto simp: lookup_modify)
  then have k6: "\<exists>r. map_of (snaps ?b6) key = Some r \<and> bname r = ?nk"
    by (auto simp: lookup_modify)
  have others: "\<forall>ns'. ns' \<noteq> ns \<longrightarrow> wseq d' ns' sname = wseq d ns' sname"
    unfolding d' d1 by simp
  have this1: "wseq d' ns sname = wseq d ns sname + 1"
    unfolding d' using s6 sq by simp
  have key: "keyOf d' ns sname key = [createKey (wseq d' ns sname) ns key]"
    using k6 this1 sq unfolding d' by auto
  show ?thesis using others this1 key by blast
qed

lemma Commit_tx_seq:
  assumes run: "Commit_tx env sname ns name key base (d, l) w = (Inr (x, d', l'), w')"
  shows "(\<forall>ns'. ns' \<noteq> ns \<longrightarrow> wseq d' ns' sname = wseq d ns' sname) \<and>
     wseq d' ns sname = wseq d ns sname + 1 \<and>
     (keyOf d' ns sname name = [] \<or> keyOf d' ns sname name = [createKey (wseq d' ns sname) ns name])"
proof -
  from run obtain bkt where bkt: "getSnapshotterBucket d ns sname = Some bkt"
    by (auto simp: Commit_tx_def split: option.splits)
  let ?nk = "createKey (bsequence bkt + 1) ns name"
  let ?b1 = "bkt\<lparr>snaps := bput (snaps bkt) name emptyRec\<rparr>"
  let ?b3 = "modify (?b1\<lparr>bsequence := bsequence bkt + 1\<rparr>) name (\<lambda>r. r\<lparr>bname := ?nk\<rparr>)"
  from run bkt obtain obkt where obkt: "map_of (snaps ?b1) key = Some obkt"
    by (auto simp: Commit_tx_def Let_def split: option.splits sum.splits)
  let ?parent = "bparent obkt"
  let ?b4 = "if length ?parent > 0 then
       modify (modify ?b3 ?parent (\<lambda>r. r\<lparr>bchildren := insert name (bchildren r - {key})\<rparr>))
         name (\<lambda>r. r\<lparr>bparent := ?parent\<rparr>) else ?b3"
  let ?b6 = "modify (modify ?b4 name (\<lambda>r. r\<lparr>bcreated := now env w, bupdated := now env w\<rparr>))
       name (\<lambda>r. r\<lparr>blabels := fst (WriteLabels (Labels base))\<rparr>)"
  let ?b7 = "?b6\<lparr>snaps := bdelete (snaps ?b6) key\<rparr>"
  have d': "d' = putSnapshotterBucket d ns sname ?b7"
    using run bkt obkt
    unfolding Commit_tx_def Let_def NextSequence_def
    by (auto split: option.splits sum.splits prod.splits if_splits)
  have s7: "bsequence ?b7 = bsequence bkt + 1" by simp
  have k3: "\<exists>r. map_of (snaps ?b3) name = Some r \<and> bname r = ?nk"
    by (auto simp: lookup_modify)
  then have k6: "\<exists>r. map_of (snaps ?b6) name = Some r \<and> bname r = ?nk"
    by (auto simp: lookup_modify)
  have k7: "map_of (snaps ?b7) name = None \<or> (\<exists>r. map_of (snaps ?b7) name = Some r \<and> bname r = ?nk)"
    using k6 by (cases "name = key") auto
  have others: "\<forall>ns'. ns' \<noteq> ns \<longrightarrow> wseq d' ns' sname = wseq d ns' sname"
    unfolding d' by simp
  have this1: "wseq d' ns sname = wseq d ns sname + 1"
    unfolding d' using s7 wseq_bucket[OF bkt] by simp
  have key: "keyOf d' ns sname name = [] \<or> keyOf d' ns sname name = [createKey (wseq d' ns sname) ns name]"
    using k7 this1 wseq_bucket[OF bkt] unfolding d' by auto
  show ?thesis using others this1 key by blast
qed

lemma Remove_tx_seq:
  assumes run: "Remove_tx env sname ns key (d, l) w = (Inr (x, d', l'), w')"
  shows "wseq d' ns' sname = wseq d ns' sname"
proof -
  from run obtain bkt sbkt where bkt: "getSnapshotterBucket d ns sname = Some bkt"
    and sbkt: "map_of (snaps bkt) key = Some sbkt"
    by (auto simp: Remove_tx_def split: option.splits)
  let ?b1 = "if length (bparent sbkt) > 0 then
       modify bkt (bparent sbkt) (\<lambda>r. r\<lparr>bchildren := bchildren r - {key}\<rparr>) else bkt"
  let ?b2 = "?b1\<lparr>snaps := bdelete (snaps ?b1) key\<rparr>"
  have d': "d' = putSnapshotterBucket d ns sname ?b2"
    using run bkt sbkt
    unfolding Remove_tx_def Let_def
    by (auto split: option.splits sum.splits prod.splits if_splits)
  show ?thesis unfolding d' using wseq_bucket[OF bkt] by simp
qed

lemma Update_tx_seq:
  assumes run: "Update_tx env sname ns i fieldpaths (d, l) w = (Inr (x, d', l'), w')"
  shows "wseq d' ns' sname = wseq d ns' sname"
proof -
  from run obtain bkt where bkt: "getSnapshotterBucket d ns sname = Some bkt"
    by (auto simp: Update_tx_def split: option.splits)
  from run bkt obtain b2 where d': "d' = putSnapshotterBucket d ns sname b2" and s: "bsequence b2 = bsequence bkt"
    unfolding Update_tx_def Let_def
    by (auto split: option.splits sum.splits prod.splits if_splits)
  show ?thesis unfolding d' using wseq_bucket[OF bkt] s by simp
qed

lemma createSnapshot_seq:
  assumes run: "createSnapshot env sname ctx key parent ro opts st = (r, st')"
  shows "case r of
       Inl e \<Rightarrow> store st' = store st
     | Inr m \<Rightarrow> (\<exists>ns. NamespaceRequired ctx = Inr ns \<and>
         (\<forall>ns'. ns' \<noteq> ns \<longrightarrow> wseq (store st') ns' sname = wseq (store st) ns' sname) \<and>
         wseq (store st') ns sname = wseq (store st) ns sname + 1 \<and>
         keyOf (store st') ns sname key = [createKey (wseq (store st') ns sname) ns key])"
proof (cases r)
  case (Inl e)
  have "store st' = store st"
    using run Inl unfolding createSnapshot_def
    by (auto split: sum.splits option.splits dest: update_Inl)
  then show ?thesis using Inl by simp
next
  case (Inr m)
  from run Inr obtain ns where ns: "NamespaceRequired ctx = Inr ns"
    by (auto simp: createSnapshot_def split: sum.splits)
  from run Inr ns obtain base where
    up: "update st (createSnapshot_tx env sname ns key parent ro opts base) = (Inr m, st')"
    by (auto simp: createSnapshot_def split: sum.splits option.splits)
  from update_Inr[OF up] obtain d l w where
    tx: "createSnapshot_tx env sname ns key parent ro opts base (store st, leases st) (world st) = (Inr (m, d, l), w)"
    and st': "st' = st\<lparr>world := w, store := d, leases := l\<rparr>" by blast
  from createSnapshot_tx_seq[OF tx] ns show ?thesis by (simp add: Inr st')
qed

lemma Commit_seq:
  assumes run: "Commit env sname ctx name key opts st = (r, st')"
  shows "case r of
       Some e \<Rightarrow> store st' = store st
     | None \<Rightarrow> (\<exists>ns. NamespaceRequired ctx = Inr ns \<and>
         (\<forall>ns'. ns' \<noteq> ns \<longrightarrow> wseq (store st') ns' sname = wseq (store st) ns' sname) \<and>
         wseq (store st') ns sname = wseq (store st) ns sname + 1 \<and>
         (keyOf (store st') ns sname name = [] \<or>
          keyOf (store st') ns sname name = [createKey (wseq (store st') ns sname) ns name]))"
proof (cases r)
  case (Some e)
  have "store st' = store st"
    using run Some unfolding Commit_def
    by (auto split: sum.splits option.splits prod.splits dest: update_Inl)
  then show ?thesis using Some by simp
next
  case None
  from run None obtain ns where ns: "NamespaceRequired ctx = Inr ns"
    by (auto simp: Commit_def split: sum.splits)
  from run None ns obtain base x where
    up: "update st (Commit_tx env sname ns name key base) = (Inr x, st')"
    by (auto simp: Commit_def split: sum.splits option.splits prod.splits)
  from update_Inr[OF up] obtain d l w where
    tx: "Commit_tx env sname ns name key base (store st, leases st) (world st) = (Inr (x, d, l), w)"
    and st': "st' = st\<lparr>world := w, store := d, leases := l\<rparr>" by blast
  from Commit_tx_seq[OF tx] ns show ?thesis by (auto simp: None st')
qed

lemma Remove_seq:
  assumes run: "Remove env sname ctx key st = (r, st')"
  shows "wseq (store st') ns' sname = wseq (store st) ns' sname"
proof -
  have "store st' = store st \<or> (\<exists>ns x d l w.
      Remove_tx env sname ns key (store st, leases st) (world st) = (Inr (x, d, l), w) \<and> store st' = d)"
    using run unfolding Remove_def
    by (auto split: sum.splits option.splits prod.splits dest!: update_store)
  then show ?thesis using Remove_tx_seq by metis
qed

lemma Update_seq:
  assumes run: "Update env sname ctx i fieldpaths st = (r, st')"
  shows "wseq (store st') ns' sname = wseq (store st) ns' sname"
proof -
  have "store st' = store st \<or> (\<exists>ns x d l w.
      Update_tx env sname ns i fieldpaths (store st, leases st) (world st) = (Inr (x, d, l), w) \<and> store st' = d)"
    using run unfolding Update_def
    by (auto split: sum.splits option.splits prod.splits if_splits dest!: update_store)
  then show ?thesis using Update_tx_seq by metis
qed

lemma step_seq:
  "\<exists>ns. (\<forall>ns'. ns' \<noteq> ns \<longrightarrow> wseq (store (step env sname st c)) ns' sname = wseq (store st) ns' sname) \<and>
     ((wseq (store (step env sname st c)) ns sname = wseq (store st) ns sname \<and> issued env sname st c = []) \<or>
      (wseq (store (step env sname st c)) ns sname = wseq (store st) ns sname + 1 \<and> CHR ''/'' \<notin> set ns \<and>
       (issued env sname st c = [] \<or>
        (\<exists>k. issued env sname st c = [createKey (wseq (store (step env sname st c)) ns sname) ns k]))))"
proof (cases c)
  case (CallPrepare ctx key parent opts)
  obtain r st' where run: "createSnapshot env sname ctx key parent False opts st = (r, st')"
    by (cases "createSnapshot env sname ctx key parent False opts st")
  show ?thesis
  proof (cases r)
    case (Inl e)
    then have "store st' = store st" using createSnapshot_seq[OF run] by simp
    then show ?thesis using CallPrepare run Inl
      by (auto simp: Prepare_def split: sum.splits)
  next
    case (Inr m)
    from createSnapshot_seq[OF run] Inr obtain ns where
      ns: "NamespaceRequired ctx = Inr ns"
      and o: "\<forall>ns'. ns' \<noteq> ns \<longrightarrow> wseq (store st') ns' sname = wseq (store st) ns' sname"
      and s: "wseq (store st') ns sname = wseq (store st) ns sname + 1"
      and k: "keyOf (store st') ns sname key = [createKey (wseq (store st') ns sname) ns key]"
      by auto
    have st: "step env sname st c = st'" using CallPrepare run by (simp add: Prepare_def)
    have i: "issued env sname st c = [createKey (wseq (store st') ns sname) ns key]"
      using CallPrepare run Inr ns k by (simp add: Prepare_def)
    show ?thesis
      unfolding st using o s i NamespaceRequired_no_slash[OF ns] by blast
  qed
next
  case (CallView ctx key parent opts)
  obtain r st' where run: "createSnapshot env sname ctx key parent True opts st = (r, st')"
    by (cases "createSnapshot env sname ctx key parent True opts st")
  show ?thesis
  proof (cases r)
    case (Inl e)
    then have "store st' = store st" using createSnapshot_seq[OF run] by simp
    then show ?thesis using CallView run Inl
      by (auto simp: View_def split: sum.splits)
  next
    case (Inr m)
    from createSnapshot_seq[OF run] Inr obtain ns where
      ns: "NamespaceRequired ctx = Inr ns"
      and o: "\<forall>ns'. ns' \<noteq> ns \<longrightarrow> wseq (store st') ns' sname = wseq (store st) ns' sname"
      and s: "wseq (store st') ns sname = wseq (store st) ns sname + 1"
      and k: "keyOf (store st') ns sname key = [createKey (wseq (store st') ns sname) ns key]"
      by auto
    have st: "step env sname st c = st'" using CallView run by (simp add: View_def)
    have i: "issued env sname st c = [createKey (wseq (store st') ns sname) ns key]"
      using CallView run Inr ns k by (simp add: View_def)
    show ?thesis
      unfolding st using o s i NamespaceRequired_no_slash[OF ns] by blast
  qed
next
  case (CallCommit ctx name key opts)
  obtain r st' where run: "Commit env sname ctx name key opts st = (r, st')"
    by (cases "Commit env sname ctx name key opts st")
  show ?thesis
  proof (cases r)
    case (Some e)
    then have "store st' = store st" using Commit_seq[OF run] by simp
    then show ?thesis using CallCommit run Some
      by (auto split: sum.splits)
  next
    case None
    from Commit_seq[OF run] None obtain ns where
      ns: "NamespaceRequired ctx = Inr ns"
      and o: "\<forall>ns'. ns' \<noteq> ns \<longrightarrow> wseq (store st') ns' sname = wseq (store st) ns' sname"
      and s: "wseq (store st') ns sname = wseq (store st) ns sname + 1"
      and k: "keyOf (store st') ns sname name = [] \<or>
          keyOf (store st') ns sname name = [createKey (wseq (store st') ns sname) ns name]"
      by auto
    have st: "step env sname st c = st'" using CallCommit run by simp
    have i: "issued env sname st c = keyOf (store st') ns sname name"
      using CallCommit run None ns by simp
    show ?thesis
      unfolding st using o s i k NamespaceRequired_no_slash[OF ns] by metis
  qed
next
  case (CallRemove ctx key)
  obtain r st' where run: "Remove env sname ctx key st = (r, st')"
    by (cases "Remove env sname ctx key st")
  show ?thesis using CallRemove run Remove_seq[OF run] by auto
next
  case (CallUpdate ctx i fieldpaths)
  obtain r st' where run: "Update env sname ctx i fieldpaths st = (r, st')"
    by (cases "Update env sname ctx i fieldpaths st")
  show ?thesis using CallUpdate run Update_seq[OF run] by auto
qed

lemma unat_succ:
  assumes "unat (w :: 64 word) \<le> n" and "Suc n < 2 ^ 64"
  shows "unat (w + 1) = Suc (unat w)"
proof -
  have "unat w + unat (1 :: 64 word) < 2 ^ LENGTH(64)" using assms by simp
  then have "unat (w + 1) = unat w + unat (1 :: 64 word)" by (simp only: unat_add_lem)
  then show ?thesis by simp
qed

lemma seqInv_step:
  assumes inv: "seqInv n (store st) sname H"
    and dist: "distinct H"
    and bound: "Suc n < 2 ^ 64"
  shows "seqInv (Suc n) (store (step env sname st c)) sname (H @ issued env sname st c) \<and>
     distinct (H @ issued env sname st c)"
proof -
  let ?d = "store st" and ?d' = "store (step env sname st c)" and ?new = "issued env sname st c"
  from step_seq[of env sname st c] obtain ns where
    o: "\<forall>ns'. ns' \<noteq> ns \<longrightarrow> wseq ?d' ns' sname = wseq ?d ns' sname"
    and s: "(wseq ?d' ns sname = wseq ?d ns sname \<and> ?new = []) \<or>
      (wseq ?d' ns sname = wseq ?d ns sname + 1 \<and> CHR ''/'' \<notin> set ns \<and>
       (?new = [] \<or> (\<exists>k. ?new = [createKey (wseq ?d' ns sname) ns k])))"
    by blast
  have le: "unat (wseq ?d ns' sname) \<le> n" for ns' using inv by (simp add: seqInv_def)
  have old: "\<exists>ns i k. CHR ''/'' \<notin> set ns \<and> h = createKey i ns k \<and> unat i \<le> unat (wseq ?d ns sname)"
    if "h \<in> set H" for h using inv that by (simp add: seqInv_def)
  have mono: "unat (wseq ?d ns' sname) \<le> unat (wseq ?d' ns' sname) \<and> unat (wseq ?d' ns' sname) \<le> Suc n" for ns'
  proof (cases "ns' = ns")
    case False
    then show ?thesis using o le[of ns'] by simp
  next
    case True
    from s show ?thesis
    proof
      assume "wseq ?d' ns sname = wseq ?d ns sname \<and> ?new = []"
      then show ?thesis using True le[of ns] by simp
    next
      assume "wseq ?d' ns sname = wseq ?d ns sname + 1 \<and> CHR ''/'' \<notin> set ns \<and>
        (?new = [] \<or> (\<exists>k. ?new = [createKey (wseq ?d' ns sname) ns k]))"
      then show ?thesis using True le[of ns] unat_succ[OF le[of ns] bound] by simp
    qed
  qed
  have old': "\<exists>ns i k. CHR ''/'' \<notin> set ns \<and> h = createKey i ns k \<and> unat i \<le> unat (wseq ?d' ns sname)"
    if "h \<in> set H" for h
  proof -
    from old[OF that] obtain ns0 i k where
      a: "CHR ''/'' \<notin> set ns0" "h = createKey i ns0 k" "unat i \<le> unat (wseq ?d ns0 sname)" by blast
    from a(3) mono[of ns0] have "unat i \<le> unat (wseq ?d' ns0 sname)" by simp
    with a(1,2) show ?thesis by blast
  qed
  show ?thesis
  proof (cases "?new = []")
    case True
    have "seqInv (Suc n) ?d' sname H"
      unfolding seqInv_def using mono old' by blast
    then show ?thesis using True dist by simp
  next
    case False
    with s obtain k where
      inc: "wseq ?d' ns sname = wseq ?d ns sname + 1" and nsl: "CHR ''/'' \<notin> set ns"
      and new: "?new = [createKey (wseq ?d' ns sname) ns k]"
      by auto
    let ?h = "createKey (wseq ?d' ns sname) ns k"
    have u: "unat (wseq ?d' ns sname) = Suc (unat (wseq ?d ns sname))"
      unfolding inc using unat_succ[OF le[of ns] bound] .
    have fresh: "?h \<notin> set H"
    proof
      assume "?h \<in> set H"
      from old[OF this] obtain ns0 i k0 where
        a: "CHR ''/'' \<notin> set ns0" "?h = createKey i ns0 k0" "unat i \<le> unat (wseq ?d ns0 sname)" by blast
      from createKey_inj[OF a(2)] nsl a(1) have "wseq ?d' ns sname = i \<and> ns = ns0" by blast
      with a(3) u show False by auto
    qed
    have newinv: "\<exists>ns i k. CHR ''/'' \<notin> set ns \<and> ?h = createKey i ns k \<and> unat i \<le> unat (wseq ?d' ns sname)"
      using nsl by blast
    have "seqInv (Suc n) ?d' sname (H @ [?h])"
      unfolding seqInv_def using mono old' newinv by auto
    then show ?thesis using new fresh dist by simp
  qed
qed

lemma history_distinct:
  "seqInv n (store st) sname H \<Longrightarrow> distinct H \<Longrightarrow> n + length calls < 2 ^ 64 \<Longrightarrow>
   distinct (H @ history env sname st calls)"
proof (induction calls arbitrary: n st H)
  case Nil
  then show ?case by simp
next
  case (Cons c cs)
  have bound: "Suc n < 2 ^ 64" using Cons.prems(3) by simp
  from seqInv_step[OF Cons.prems(1,2) bound, of env c]
  have inv': "seqInv (Suc n) (store (step env sname st c)) sname (H @ issued env sname st c)"
    and d': "distinct (H @ issued env sname st c)" by simp_all
  have b': "Suc n + length cs < 2 ^ 64" using Cons.prems(3) by simp
  from Cons.IH[OF inv' d' b'] show ?case by simp
qed

lemma seqInv_empty: "seqInv 0 [] sname []"
  by (simp add: seqInv_def wseq_def getSnapshotterBucket_def)

text \<open>
  C6 (as amended): in one snapshotter, over any sequence of fewer than 2^64 Prepare,
  View, Commit, Remove and Update calls on a store that was empty, in whatever
  namespaces, the backend keys that the successful Prepare, View and Commit calls
  stored are all different from one another, also when the record of the earlier one
  has been removed since. A successful Prepare or View stores the key made of the
  namespace, the bucket's next sequence number and the name; and creating a name again
  after its Remove gives a backend key that differs from the one issued before.
\<close>

theorem backend_keys_unique:
  "(store init = [] \<and> length calls < 2 ^ 64 \<longrightarrow> distinct (history env sname init calls)) \<and>
   (NamespaceRequired ctx = Inr nsp \<and>
    createSnapshot env sname ctx key parent readonly opts st = (Inr m, st1) \<longrightarrow>
      getKey (store st1) nsp sname key =
        createKey ((case getSnapshotterBucket (store st) nsp sname of None \<Rightarrow> 0 | Some b \<Rightarrow> bsequence b) + 1) nsp key) \<and>
   (NamespaceRequired ctx = Inr nsp \<and>
    createSnapshot env sname ctx key parent readonly opts st = (Inr m, st1) \<and>
    Remove env sname ctx key st1 = (None, st2) \<and>
    createSnapshot env sname ctx key parent' readonly' opts' st2 = (Inr m', st3) \<longrightarrow>
      getKey (store st1) nsp sname key \<noteq> getKey (store st3) nsp sname key)"
proof -
  have unique: "distinct (history env sname init calls)"
    if "store init = []" "length calls < 2 ^ 64"
    using history_distinct[of 0 init sname "[]" calls env] that seqInv_empty by simp
  have issued: "getKey (store st1) nsp sname key =
        createKey ((case getSnapshotterBucket (store st) nsp sname of None \<Rightarrow> 0 | Some b \<Rightarrow> bsequence b) + 1) nsp key"
    if "NamespaceRequired ctx = Inr nsp" "createSnapshot env sname ctx key parent readonly opts st = (Inr m, st1)"
    using createSnapshot_result[OF that(2)] that(1) by (auto simp: getKey_def)
  have fresh: "getKey (store st1) nsp sname key \<noteq> getKey (store st3) nsp sname key"
    if "NamespaceRequired ctx = Inr nsp" "createSnapshot env sname ctx key parent readonly opts st = (Inr m, st1)"
      "Remove env sname ctx key st1 = (None, st2)"
      "createSnapshot env sname ctx key parent' readonly' opts' st2 = (Inr m', st3)"
    using recreate_fresh_key[OF that(2,3,4)] that(1) by simp
  show ?thesis using unique issued fresh by blast
qed

text \<open>
  C6, as the claim states it: the first snapshot x of the snapshotters \<open>overlayfs\<close>
  and \<open>native\<close> in namespace ns1 get the same backend key, each from sequence number
  1 of its own bucket.
\<close>

theorem backend_key_shared_across_buckets:
  "fst (Prepare clockEnv ''overlayfs'' ns1 ''x'' '''' [] st0) = Inr [] \<and>
   fst (Prepare clockEnv ''native'' ns1 ''x'' '''' []
     (snd (Prepare clockEnv ''overlayfs'' ns1 ''x'' '''' [] st0))) = Inr [] \<and>
   getKey (store (snd (Prepare clockEnv ''native'' ns1 ''x'' '''' []
     (snd (Prepare clockEnv ''overlayfs'' ns1 ''x'' '''' [] st0))))) ''ns1'' ''overlayfs'' ''x''
     = ''ns1/1/x'' \<and>
   getKey (store (snd (Prepare clockEnv ''native'' ns1 ''x'' '''' []
     (snd (Prepare clockEnv ''overlayfs'' ns1 ''x'' '''' [] st0))))) ''ns1'' ''native'' ''x''
     = ''ns1/1/x''"
  by code_simp

text \<open>
  C6, an instance: Prepare x, Remove x, Prepare y, Remove y and View x in namespace ns1
  of an empty store issue the keys \<open>ns1/1/x\<close>, \<open>ns1/2/y\<close> and \<open>ns1/3/x\<close>; and x,
  prepared, removed and then viewed, gets \<open>ns1/1/x\<close> and then another key.
\<close>

theorem backend_keys_unique_witness:
  "store st0 = [] \<and> length fiveCalls < 2 ^ 64 \<and>
   history clockEnv ''overlayfs'' st0 fiveCalls = [''ns1/1/x'', ''ns1/2/y'', ''ns1/3/x''] \<and>
   distinct (history clockEnv ''overlayfs'' st0 fiveCalls) \<and>
   fst (createSnapshot clockEnv ''overlayfs'' ns1 ''x'' '''' False [] st0) = Inr [] \<and>
   getKey (store (snd (createSnapshot clockEnv ''overlayfs'' ns1 ''x'' '''' False [] st0)))
     ''ns1'' ''overlayfs'' ''x'' = ''ns1/1/x'' \<and>
   fst (Remove clockEnv ''overlayfs'' ns1 ''x''
     (snd (createSnapshot clockEnv ''overlayfs'' ns1 ''x'' '''' False [] st0))) = None \<and>
   fst (createSnapshot clockEnv ''overlayfs'' ns1 ''x'' '''' True []
     (snd (Remove clockEnv ''overlayfs'' ns1 ''x''
       (snd (createSnapshot clockEnv ''overlayfs'' ns1 ''x'' '''' False [] st0))))) = Inr [] \<and>
   getKey (store (snd (createSnapshot clockEnv ''overlayfs'' ns1 ''x'' '''' True []
     (snd (Remove clockEnv ''overlayfs'' ns1 ''x''
       (snd (createSnapshot clockEnv ''overlayfs'' ns1 ''x'' '''' False [] st0)))))))
     ''ns1'' ''overlayfs'' ''x''
   \<noteq> getKey (store (snd (createSnapshot clockEnv ''overlayfs'' ns1 ''x'' '''' False [] st0)))
     ''ns1'' ''overlayfs'' ''x''"
proof -
  let ?p1 = "createSnapshot clockEnv ''overlayfs'' ns1 ''x'' '''' False [] st0"
  let ?rm = "Remove clockEnv ''overlayfs'' ns1 ''x'' (snd ?p1)"
  let ?p2 = "createSnapshot clockEnv ''overlayfs'' ns1 ''x'' '''' True [] (snd ?rm)"
  have e: "store st0 = []" by (simp add: st0_def)
  have len: "length fiveCalls < 2 ^ 64" by (simp add: fiveCalls_def)
  have h: "history clockEnv ''overlayfs'' st0 fiveCalls = [''ns1/1/x'', ''ns1/2/y'', ''ns1/3/x'']"
    by code_simp
  have dist: "distinct (history clockEnv ''overlayfs'' st0 fiveCalls)"
    using backend_keys_unique[where init = st0 and calls = fiveCalls and env = clockEnv
        and sname = "''overlayfs''", THEN conjunct1, rule_format] e len
    by blast
  have f1: "fst ?p1 = Inr []" by code_simp
  have f2: "fst ?rm = None" by code_simp
  have f3: "fst ?p2 = Inr []" by code_simp
  have r1: "?p1 = (Inr [], snd ?p1)" using f1 by (simp add: prod_eq_iff)
  have r2: "?rm = (None, snd ?rm)" using f2 by (simp add: prod_eq_iff)
  have r3: "?p2 = (Inr [], snd ?p2)" using f3 by (simp add: prod_eq_iff)
  have k1: "createKey ((case getSnapshotterBucket (store st0) ''ns1'' ''overlayfs'' of
      None \<Rightarrow> 0 | Some b \<Rightarrow> bsequence b) + 1) ''ns1'' ''x'' = ''ns1/1/x''" by code_simp
  have g1: "getKey (store (snd ?p1)) ''ns1'' ''overlayfs'' ''x'' = ''ns1/1/x''"
    using backend_keys_unique[where ctx = ns1 and nsp = "''ns1''" and env = clockEnv and sname = "''overlayfs''"
        and key = "''x''" and parent = "''''" and readonly = False and opts = "[]" and st = st0
        and m = "[]" and ?st1.0 = "snd ?p1", THEN conjunct2, THEN conjunct1, rule_format]
      ns1_required r1 k1
    by simp
  have fresh: "getKey (store (snd ?p1)) ''ns1'' ''overlayfs'' ''x''
      \<noteq> getKey (store (snd ?p2)) ''ns1'' ''overlayfs'' ''x''"
    using backend_keys_unique[where ctx = ns1 and nsp = "''ns1''" and env = clockEnv and sname = "''overlayfs''"
        and key = "''x''" and parent = "''''" and readonly = False and opts = "[]" and st = st0
        and m = "[]" and ?st1.0 = "snd ?p1" and ?st2.0 = "snd ?rm" and parent' = "''''" and readonly' = True
        and opts' = "[]" and m' = "[]" and ?st3.0 = "snd ?p2", THEN conjunct2, THEN conjunct2, rule_format]
      ns1_required r1 r2 r3
    by blast
  from fresh have fresh': "getKey (store (snd ?p2)) ''ns1'' ''overlayfs'' ''x''
      \<noteq> getKey (store (snd ?p1)) ''ns1'' ''overlayfs'' ''x''" by (rule not_sym)
  show ?thesis by (intro conjI e len h dist f1 g1 f2 f3 fresh')
qed

subsection \<open>Prepare and View\<close>

text \<open>
  C7: Prepare and View are atomic. Whenever createSnapshot returns an error, also one of
  the driver's Prepare or View called inside the transaction, the buckets, the leases
  and the dirty set are what they were; and when the name is taken (the namespace, the
  options and the labels being accepted) the error is AlreadyExists and the whole state
  is unchanged, the record of that name included.
\<close>

theorem createSnapshot_atomic:
  "(createSnapshot env sname ctx key parent readonly opts st = (Inl e, st') \<longrightarrow>
      store st' = store st \<and> leases st' = leases st \<and> dirtySS st' = dirtySS st) \<and>
   (NamespaceRequired ctx = Inr ns \<and> applyOpts opts emptyInfo = Inr base \<and>
    validateSnapshot env base = None \<and>
    getSnapshotterBucket (store st) ns sname = Some bkt \<and> map_of (snaps bkt) key = Some r \<longrightarrow>
      createSnapshot env sname ctx key parent readonly opts st = (Inl AlreadyExists, st))"
proof -
  have unchanged: "store st' = store st \<and> leases st' = leases st \<and> dirtySS st' = dirtySS st"
    if run: "createSnapshot env sname ctx key parent readonly opts st = (Inl e, st')"
    using run unfolding createSnapshot_def update_def
    by (auto split: sum.splits option.splits prod.splits)
  have exists: "createSnapshot env sname ctx key parent readonly opts st = (Inl AlreadyExists, st)"
    if "NamespaceRequired ctx = Inr ns" "applyOpts opts emptyInfo = Inr base"
      "validateSnapshot env base = None"
      "getSnapshotterBucket (store st) ns sname = Some bkt" "map_of (snaps bkt) key = Some r"
    using that
    by (simp add: createSnapshot_def update_def createSnapshot_tx_def createSnapshotterBucket_def)
  show ?thesis using unchanged exists by blast
qed

text \<open>
  C7, an instance: preparing the existing name \<open>active\<close> fails with AlreadyExists and
  changes nothing; preparing \<open>fresh\<close> on top of it with a driver whose Prepare fails
  returns the driver's error and leaves the store as it was.
\<close>

theorem createSnapshot_atomic_witness:
  "createSnapshot clockEnv ''overlayfs'' ns1 ''active'' '''' False [] stActive = (Inl AlreadyExists, stActive) \<and>
   fst (createSnapshot (clockEnv\<lparr>drvPrepare := \<lambda>w k p opts. (Inl (Other ''no space''), w + 1)\<rparr>)
          ''overlayfs'' ns1 ''fresh'' ''active'' False [] stActive) = Inl (Other ''no space'') \<and>
   store (snd (createSnapshot (clockEnv\<lparr>drvPrepare := \<lambda>w k p opts. (Inl (Other ''no space''), w + 1)\<rparr>)
          ''overlayfs'' ns1 ''fresh'' ''active'' False [] stActive)) = store stActive"
proof -
  let ?env = "clockEnv\<lparr>drvPrepare := \<lambda>w k p opts. (Inl (Other ''no space''), w + 1)\<rparr>"
  let ?bkt = "\<lparr>bsequence = 1, snaps = [(''active'',
        \<lparr>bname = ''ns1/1/active'', bparent = '''', bchildren = {}, bcreated = 0, bupdated = 0,
           blabels = None\<rparr>)]\<rparr>"
  have valid: "validateSnapshot clockEnv emptyInfo = None"
    by (simp add: validateSnapshot_def clockEnv_def)
  have rec: "map_of (snaps ?bkt) ''active'' = Some \<lparr>bname = ''ns1/1/active'', bparent = '''', bchildren = {}, bcreated = 0, bupdated = 0,
           blabels = None\<rparr>"
    by simp
  have opts: "applyOpts [] emptyInfo = Inr emptyInfo" by simp
  have fails: "fst (createSnapshot ?env ''overlayfs'' ns1 ''fresh'' ''active'' False [] stActive) = Inl (Other ''no space'')"
    by code_simp
  then have run: "createSnapshot ?env ''overlayfs'' ns1 ''fresh'' ''active'' False [] stActive
      = (Inl (Other ''no space''), snd (createSnapshot ?env ''overlayfs'' ns1 ''fresh'' ''active'' False [] stActive))"
    by (simp add: prod_eq_iff)
  have exists: "createSnapshot clockEnv ''overlayfs'' ns1 ''active'' [] False [] stActive = (Inl AlreadyExists, stActive)"
    using createSnapshot_atomic[of clockEnv "''overlayfs''" ns1 "''active''" "[]" False "[]" stActive
        AlreadyExists stActive "''ns1''" emptyInfo ?bkt,
        THEN conjunct2, rule_format]
      ns1_required valid rec opts bucket_stActive
    by blast
  have unchanged: "store (snd (createSnapshot ?env ''overlayfs'' ns1 ''fresh'' ''active'' False [] stActive)) = store stActive"
    using createSnapshot_atomic[of ?env "''overlayfs''" ns1 "''fresh''" "''active''" False "[]" stActive "Other ''no space''"
        "snd (createSnapshot ?env ''overlayfs'' ns1 ''fresh'' ''active'' False [] stActive)",
        THEN conjunct1, rule_format, OF run]
    by (rule conjunct1)
  show ?thesis using exists fails unchanged by (intro conjI)
qed

subsection \<open>Commit\<close>

lemma Commit_tx_result:
  assumes run: "Commit_tx env sname ns name key base (d, l) w = (Inr ((), d', l'), w')"
    and neq: "name \<noteq> key"
  shows "\<exists>bkt obkt bkt' r. getSnapshotterBucket d ns sname = Some bkt \<and>
      map_of (snaps bkt) key = Some obkt \<and>
      getSnapshotterBucket d' ns sname = Some bkt' \<and>
      map_of (snaps bkt') key = None \<and>
      map_of (snaps bkt') name = Some r \<and>
      bname r = createKey (bsequence bkt + 1) ns name \<and>
      bparent r = bparent obkt \<and> blabels r = fst (WriteLabels (Labels base)) \<and>
      bcreated r = now env w \<and> bupdated r = now env w"
  using run neq
  unfolding Commit_tx_def Let_def NextSequence_def
  by (auto simp: snaps_modify emptyRec_def split: option.splits sum.splits prod.splits if_splits)

text \<open>
  C5 (as amended): for a record at \<open>key\<close>, after a successful Commit of \<open>key\<close> under
  another \<open>name\<close>, Stat of \<open>key\<close> fails with NotFound, and Stat of \<open>name\<close> returns the
  driver's error if its Stat of the new backend key fails, and otherwise an info with
  the parent of the committed record and the time of the commit as both Created and
  Updated; its labels, when the driver's info has none of its own, are those given to
  Commit through its options, as WriteLabels stored them.
\<close>

theorem Commit_then_Stat:
  assumes ns: "NamespaceRequired ctx = Inr ns"
    and base: "applyOpts opts emptyInfo = Inr base"
    and bkt: "getSnapshotterBucket (store st) ns sname = Some bkt"
    and obkt: "map_of (snaps bkt) key = Some obkt"
    and run: "Commit env sname ctx name key opts st = (None, st')"
    and neq: "name \<noteq> key"
  shows "Stat env sname ctx key st' = Inl NotFound \<and>
     (\<forall>e. drvStat env (world st') (createKey (bsequence bkt + 1) ns name) = Inl e \<longrightarrow>
        Stat env sname ctx name st' = Inl e) \<and>
     (\<forall>di. drvStat env (world st') (createKey (bsequence bkt + 1) ns name) = Inr di \<longrightarrow>
        (\<exists>r. Stat env sname ctx name st' = Inr r \<and> Name r = name \<and>
           Parent r = bparent obkt \<and>
           Created r = now env (world st) \<and> Updated r = now env (world st) \<and>
           (Labels di = None \<longrightarrow> Labels r = fst (WriteLabels (Labels base)))))"
proof -
  from run ns base obtain x where up: "update st (Commit_tx env sname ns name key base) = (Inr x, st')"
    by (auto simp: Commit_def split: sum.splits option.splits prod.splits)
  from update_Inr[OF up] obtain d l w where
    tx: "Commit_tx env sname ns name key base (store st, leases st) (world st) = (Inr (x, d, l), w)"
    and st': "st' = st\<lparr>world := w, store := d, leases := l\<rparr>" by blast
  from Commit_tx_result[OF tx[unfolded unit_eq[of x]] neq] bkt obkt
  obtain bkt' r where
    b: "getSnapshotterBucket d ns sname = Some bkt'" "map_of (snaps bkt') key = None"
      "map_of (snaps bkt') name = Some r" "bname r = createKey (bsequence bkt + 1) ns name"
      "bparent r = bparent obkt" "blabels r = fst (WriteLabels (Labels base))"
      "bcreated r = now env (world st)" "bupdated r = now env (world st)"
    by auto
  have gone: "Stat env sname ctx key st' = Inl NotFound"
    using ns b by (simp add: Stat_def st')
  have stat: "Stat env sname ctx name st' =
      (case drvStat env (world st') (createKey (bsequence bkt + 1) ns name) of
         Inl e \<Rightarrow> Inl e
       | Inr di \<Rightarrow> Inr (overlayInfo di (localInfo name r)))"
    using ns b by (simp add: Stat_def st')
  have err: "Stat env sname ctx name st' = Inl e"
    if "drvStat env (world st') (createKey (bsequence bkt + 1) ns name) = Inl e" for e
    using stat that by simp
  have new: "\<exists>r'. Stat env sname ctx name st' = Inr r' \<and> Name r' = name \<and>
           Parent r' = bparent obkt \<and>
           Created r' = now env (world st) \<and> Updated r' = now env (world st) \<and>
           (Labels di = None \<longrightarrow> Labels r' = fst (WriteLabels (Labels base)))"
    if "drvStat env (world st') (createKey (bsequence bkt + 1) ns name) = Inr di" for di
    using stat that b by (simp add: overlayInfo_def localInfo_def)
  show ?thesis using gone err new by blast
qed

text \<open>
  C5, as the claim states it: Update leaves \<open>active\<close> with the label a = 1, created at 0
  and updated at 5; after Commit at time 7, Stat of \<open>release\<close> shows no label and the
  times 7 and 7.
\<close>

theorem Commit_resets_labels_and_times:
  "shown (fst (Update clockEnv ''overlayfs'' ns1 updA [] stActive)) = Inr ('''', Some [(''a'', ''1'')], 0, 5) \<and>
   fst (Commit clockEnv ''overlayfs'' ns1 ''release'' ''active'' []
         ((snd (Update clockEnv ''overlayfs'' ns1 updA [] stActive))\<lparr>world := 7\<rparr>)) = None \<and>
   shown (Stat clockEnv ''overlayfs'' ns1 ''release''
     (snd (Commit clockEnv ''overlayfs'' ns1 ''release'' ''active'' []
         ((snd (Update clockEnv ''overlayfs'' ns1 updA [] stActive))\<lparr>world := 7\<rparr>))))
     = Inr ('''', None, 7, 7)"
  by code_simp

lemma bucket_stLineage:
  "getSnapshotterBucket (store stLineage) ''ns1'' ''overlayfs'' = Some \<lparr>bsequence = 2, snaps = lineage\<rparr>"
  by (simp add: stLineage_def getSnapshotterBucket_def)

text \<open>
  C5, an instance: \<open>active\<close>, with parent \<open>base\<close>, the labels a = 1 and c = 3 and the
  times 0 and 5, is committed at time 7 as \<open>release\<close> with the label k = v; then \<open>active\<close> is gone,
  and \<open>release\<close> has the parent \<open>base\<close>, the label k = v only, and the times 7 and 7.
\<close>

theorem Commit_then_Stat_witness:
  "fst (Commit clockEnv ''overlayfs'' ns1 ''release'' ''active'' [WithLabels [(''k'', ''v'')]] stLineage) = None \<and>
   Stat clockEnv ''overlayfs'' ns1 ''active''
     (snd (Commit clockEnv ''overlayfs'' ns1 ''release'' ''active'' [WithLabels [(''k'', ''v'')]] stLineage))
     = Inl NotFound \<and>
   shown (Stat clockEnv ''overlayfs'' ns1 ''release''
     (snd (Commit clockEnv ''overlayfs'' ns1 ''release'' ''active'' [WithLabels [(''k'', ''v'')]] stLineage)))
     = Inr (''base'', Some [(''k'', ''v'')], 7, 7)"
proof -
  let ?c = "Commit clockEnv ''overlayfs'' ns1 ''release'' ''active'' [WithLabels [(''k'', ''v'')]] stLineage"
  have ok: "fst ?c = None"
    by code_simp
  then have run: "?c = (None, snd ?c)"
    by (simp add: prod_eq_iff)
  have neq: "''release'' \<noteq> ''active''" by simp
  have base: "applyOpts [WithLabels [(''k'', ''v'')]] emptyInfo = Inr (emptyInfo\<lparr>Labels := Some [(''k'', ''v'')]\<rparr>)"
    by (simp add: WithLabels_def)
  have obkt: "map_of (snaps \<lparr>bsequence = 2, snaps = lineage\<rparr>) ''active'' = Some (lineageActive)"
    by (simp add: lineage_def)
  have di: "drvStat clockEnv (world (snd ?c)) (createKey (bsequence \<lparr>bsequence = 2, snaps = lineage\<rparr> + 1) ''ns1'' ''release'')
      = Inr emptyInfo"
    by (simp add: clockEnv_def)
  note inst = Commit_then_Stat[OF ns1_required base bucket_stLineage obkt run neq]
  have gone: "Stat clockEnv ''overlayfs'' ns1 ''active'' (snd ?c) = Inl NotFound"
    using inst by (rule conjunct1)
  from inst[THEN conjunct2, THEN conjunct2, rule_format, OF di]
  obtain r where r: "Stat clockEnv ''overlayfs'' ns1 ''release'' (snd ?c) = Inr r \<and>
    Name r = ''release'' \<and> Parent r = bparent lineageActive \<and>
    Created r = now clockEnv (world stLineage) \<and> Updated r = now clockEnv (world stLineage) \<and>
    (Labels emptyInfo = None \<longrightarrow>
       Labels r = fst (WriteLabels (Labels (emptyInfo\<lparr>Labels := Some [(''k'', ''v'')]\<rparr>))))"
    ..
  have "shown (Stat clockEnv ''overlayfs'' ns1 ''release'' (snd ?c)) = Inr (''base'', Some [(''k'', ''v'')], 7, 7)"
    using r by (simp add: shown_def lineageActive_def clockEnv_def stLineage_def emptyInfo_def WriteLabels_def)
  then show ?thesis using ok gone by simp
qed

subsection \<open>The field paths of Update\<close>

lemma HasPrefix_append: "HasPrefix p q \<longleftrightarrow> (\<exists>k. p = q @ k)"
  unfolding HasPrefix_def by (metis append_eq_conv_conj append_take_drop_id)

lemma TrimPrefix_append: "TrimPrefix (q @ k) q = k"
  by (simp add: TrimPrefix_def HasPrefix_def)

lemma bput_not_Nil: "bput m k v \<noteq> []"
  by (cases m) (auto split: if_splits)

lemma map_of_filter_values:
  "distinct (map fst m) \<Longrightarrow>
   map_of (filter (\<lambda>(k, v). v \<noteq> '''') m) k = (if map_of m k = Some '''' then None else map_of m k)"
proof (induction m)
  case Nil
  then show ?case by simp
next
  case (Cons x m)
  obtain k' v' where x: "x = (k', v')" by (cases x)
  from Cons.prems have d: "distinct (map fst m)" and nk: "k' \<notin> fst ` set m" by (auto simp: x)
  have none: "map_of m k' = None" using nk by (simp add: map_of_eq_None_iff)
  have none': "map_of (filter (\<lambda>(k, v). v \<noteq> '''') m) k' = None"
    using nk by (auto simp: map_of_eq_None_iff)
  show ?case using Cons.IH[OF d] none none' by (auto simp: x)
qed

lemma sorted_distinct_keys: "sorted_wrt (<) (map fst (m :: string bucket)) \<Longrightarrow> distinct (map fst m)"
  by (simp add: strict_sorted_iff)

lemma applyPaths_labels_dot:
  "\<forall>p\<in>set paths. HasPrefix p ''labels.'' \<Longrightarrow> paths \<noteq> [] \<Longrightarrow>
   sorted_wrt (<) (map fst (case localL of None \<Rightarrow> [] | Some m \<Rightarrow> m)) \<Longrightarrow>
   \<exists>m. applyPaths paths (infoL, localL, False) = Inr (infoL, Some m, False) \<and> m \<noteq> [] \<and>
     sorted_wrt (<) (map fst m) \<and>
     (\<forall>k. map_of m k = (if ''labels.'' @ k \<in> set paths then Some (lookup infoL k)
                          else entry localL k))"
proof (induction paths arbitrary: localL)
  case Nil
  then show ?case by simp
next
  case (Cons p paths)
  from Cons.prems obtain key where p: "p = ''labels.'' @ key"
    by (auto simp: HasPrefix_append)
  have rest: "\<forall>p\<in>set paths. HasPrefix p ''labels.''" using Cons.prems by simp
  have trim: "TrimPrefix p ''labels.'' = key" unfolding p by (rule TrimPrefix_append)
  have hp: "HasPrefix p ''labels.''" using Cons.prems by simp
  let ?m0 = "case localL of None \<Rightarrow> [] | Some m \<Rightarrow> m"
  let ?l1 = "Some (bput ?m0 key (lookup infoL key))"
  have step: "applyPaths (p # paths) (infoL, localL, False) = applyPaths paths (infoL, ?l1, False)"
    using hp trim by (cases localL) simp_all
  have s1: "sorted_wrt (<) (map fst (bput ?m0 key (lookup infoL key)))"
    using Cons.prems(3) by (rule sorted_bput)
  have e1: "entry ?l1 k = (if k = key then Some (lookup infoL key) else entry localL k)" for k
    by (cases localL) (simp_all add: entry_def)
  show ?case
  proof (cases "paths = []")
    case True
    have a: "applyPaths (p # paths) (infoL, localL, False) = Inr (infoL, ?l1, False)"
      using step True by simp
    have b: "map_of (bput ?m0 key (lookup infoL key)) k =
        (if ''labels.'' @ k \<in> set (p # paths) then Some (lookup infoL k) else entry localL k)" for k
      using e1[of k] True by (simp add: p entry_def)
    show ?thesis
      by (rule exI[of _ "bput ?m0 key (lookup infoL key)"]) (simp only: a s1 b bput_not_Nil not_False_eq_True simp_thms)
  next
    case False
    have s1': "sorted_wrt (<) (map fst (case ?l1 of None \<Rightarrow> [] | Some m \<Rightarrow> m))"
      using s1 by simp
    from Cons.IH[OF rest False s1'] obtain m where
      m: "applyPaths paths (infoL, ?l1, False) = Inr (infoL, Some m, False)" "m \<noteq> []"
        "sorted_wrt (<) (map fst m)"
        "\<forall>k. map_of m k = (if ''labels.'' @ k \<in> set paths then Some (lookup infoL k) else entry ?l1 k)"
      by blast
    have b: "map_of m k =
        (if ''labels.'' @ k \<in> set (p # paths) then Some (lookup infoL k) else entry localL k)" for k
      using m(4)[rule_format, of k] e1[of k] by (cases "k = key") (simp_all add: p)
    have a: "applyPaths (p # paths) (infoL, localL, False) = Inr (infoL, Some m, False)"
      using step m(1) by simp
    show ?thesis
      by (rule exI[of _ m]) (simp only: a m(2,3) b not_False_eq_True simp_thms)
  qed
qed

text \<open>
  C10 (as amended): Update of an existing record (its label entries in key order, one
  per key, as the store holds them) with field paths that are all of the form
  \<open>labels.k\<close> succeeds when the label validation accepts and the driver's Stat
  answers. After it the record has, for every k named by a path, the value the supplied
  info has for k, and no entry for k when that value is empty or missing: an empty
  value is not stored, so the path deletes the label. Every other label of the record
  is as it was. The info Update returns has the record's labels when the driver's
  info has none of its own.
\<close>

theorem labels_dot_path_deletes_empty:
  assumes ns: "NamespaceRequired ctx = Inr ns"
    and name: "Name i \<noteq> ''''"
    and bkt: "getSnapshotterBucket (store st) ns sname = Some bkt"
    and sbkt: "map_of (snaps bkt) (Name i) = Some sbkt"
    and canon: "sorted_wrt (<) (map fst (case blabels sbkt of None \<Rightarrow> [] | Some m \<Rightarrow> m))"
    and paths: "fieldpaths \<noteq> []" "\<forall>p\<in>set fieldpaths. HasPrefix p ''labels.''"
  shows "((\<forall>l. validate env l = None) \<and> (\<exists>di. drvStat env (world st) (bname sbkt) = Inr di) \<longrightarrow>
            (\<exists>r st'. Update env sname ctx i fieldpaths st = (Inr r, st'))) \<and>
         (Update env sname ctx i fieldpaths st = (Inr r, st') \<longrightarrow>
            (\<exists>bkt' sbkt'. getSnapshotterBucket (store st') ns sname = Some bkt' \<and>
               map_of (snaps bkt') (Name i) = Some sbkt' \<and>
               (\<forall>k. entry (blabels sbkt') k =
                  (if ''labels.'' @ k \<in> set fieldpaths
                   then (if lookup (Labels i) k = '''' then None else Some (lookup (Labels i) k))
                   else (if entry (blabels sbkt) k = Some '''' then None else entry (blabels sbkt) k))) \<and>
               (\<forall>di. drvStat env (world st') (bname sbkt) = Inr di \<and> Labels di = None \<longrightarrow>
                  Labels r = blabels sbkt')))"
proof -
  from applyPaths_labels_dot[OF paths(2) paths(1) canon, of "Labels i"] obtain m where
    m: "applyPaths fieldpaths (Labels i, blabels sbkt, False) = Inr (Labels i, Some m, False)"
      "m \<noteq> []" "sorted_wrt (<) (map fst m)"
      "\<forall>k. map_of m k = (if ''labels.'' @ k \<in> set fieldpaths then Some (lookup (Labels i) k)
                          else entry (blabels sbkt) k)"
    by blast
  have ul: "updateLabels (Labels i) (blabels sbkt) fieldpaths = Inr (Some m)"
    using m(1) paths(1) by (simp add: updateLabels_def)
  let ?stored = "filter (\<lambda>(k, v). v \<noteq> '''') m"
  have wl: "WriteLabels (Some m) = (Some ?stored, Some ?stored)"
    using m(2) by (simp add: WriteLabels_def)
  let ?rec = "sbkt\<lparr>bcreated := bcreated sbkt, bupdated := now env (world st), blabels := Some ?stored\<rparr>"
  let ?bkt2 = "modify (modify bkt (Name i) (\<lambda>r. r\<lparr>bcreated := bcreated sbkt, bupdated := now env (world st)\<rparr>))
      (Name i) (\<lambda>r. r\<lparr>blabels := Some ?stored\<rparr>)"
  let ?local = "emptyInfo\<lparr>Name := Name i, Labels := Some ?stored, Created := bcreated sbkt,
      Updated := now env (world st), Parent := bparent sbkt\<rparr>"
  let ?st2 = "st\<lparr>world := world st, store := putSnapshotterBucket (store st) ns sname ?bkt2, leases := leases st\<rparr>"
  have tx: "Update_tx env sname ns i fieldpaths (store st, leases st) (world st) =
      (case validate env (Some m) of
         Some e \<Rightarrow> (Inl e, world st)
       | None \<Rightarrow> (Inr ((bname sbkt, ?local), putSnapshotterBucket (store st) ns sname ?bkt2, leases st), world st))"
    by (simp add: Update_tx_def bkt sbkt ul validateSnapshot_def wl Let_def split: option.splits)
  have upd: "Update env sname ctx i fieldpaths st =
      (case validate env (Some m) of
         Some e \<Rightarrow> (Inl e, st\<lparr>world := world st\<rparr>)
       | None \<Rightarrow>
           (case drvStat env (world st) (bname sbkt) of
              Inl e \<Rightarrow> (Inl e, ?st2)
            | Inr di \<Rightarrow> (Inr (overlayInfo di ?local), ?st2)))"
    using ns name by (simp add: Update_def update_def tx split: option.splits sum.splits)
  have d: "distinct (map fst m)" using m(3) by (rule sorted_distinct_keys)
  have ent: "entry (Some ?stored) k =
      (if ''labels.'' @ k \<in> set fieldpaths
       then (if lookup (Labels i) k = '''' then None else Some (lookup (Labels i) k))
       else (if entry (blabels sbkt) k = Some '''' then None else entry (blabels sbkt) k))" for k
    using map_of_filter_values[OF d, of k] m(4)[rule_format, of k] by (simp add: entry_def)
  have rec: "map_of (snaps ?bkt2) (Name i) = Some ?rec"
    using sbkt by (simp add: lookup_modify)
  have succeeds: "\<exists>r st'. Update env sname ctx i fieldpaths st = (Inr r, st')"
    if "\<forall>l. validate env l = None" "\<exists>di. drvStat env (world st) (bname sbkt) = Inr di"
    using that upd by auto
  have after: "\<exists>bkt' sbkt'. getSnapshotterBucket (store st') ns sname = Some bkt' \<and>
               map_of (snaps bkt') (Name i) = Some sbkt' \<and>
               (\<forall>k. entry (blabels sbkt') k =
                  (if ''labels.'' @ k \<in> set fieldpaths
                   then (if lookup (Labels i) k = '''' then None else Some (lookup (Labels i) k))
                   else (if entry (blabels sbkt) k = Some '''' then None else entry (blabels sbkt) k))) \<and>
               (\<forall>di. drvStat env (world st') (bname sbkt) = Inr di \<and> Labels di = None \<longrightarrow>
                  Labels r = blabels sbkt')"
    if run: "Update env sname ctx i fieldpaths st = (Inr r, st')"
  proof -
    from run upd obtain di where di: "drvStat env (world st) (bname sbkt) = Inr di"
      and r: "r = overlayInfo di ?local" and st': "st' = ?st2"
      by (auto split: option.splits sum.splits)
    have g: "getSnapshotterBucket (store st') ns sname = Some ?bkt2" by (simp add: st')
    have lab: "\<forall>di'. drvStat env (world st') (bname sbkt) = Inr di' \<and> Labels di' = None \<longrightarrow>
        Labels r = blabels ?rec"
      using di by (simp add: st' r overlayInfo_def)
    have ent': "\<forall>k. entry (blabels ?rec) k =
                  (if ''labels.'' @ k \<in> set fieldpaths
                   then (if lookup (Labels i) k = '''' then None else Some (lookup (Labels i) k))
                   else (if entry (blabels sbkt) k = Some '''' then None else entry (blabels sbkt) k))"
      using ent by simp
    show ?thesis using g rec ent' lab by blast
  qed
  show ?thesis using succeeds after by blast
qed

text \<open>
  C10, as the claim states it: \<open>active\<close> has the labels a = 1 and c = 3; Update with
  the field path \<open>labels.a\<close> and a supplied map without a succeeds, and afterwards the
  record has no entry for a (it is not the empty string), and c = 3: the field path
  has deleted a label key.
\<close>

theorem labels_dot_path_deletes_label:
  "shown (Stat clockEnv ''overlayfs'' ns1 ''active'' stLineage)
     = Inr (''base'', Some [(''a'', ''1''), (''c'', ''3'')], 0, 5) \<and>
   shown (fst (Update clockEnv ''overlayfs'' ns1 updDropA [''labels.a''] stLineage))
     = Inr (''base'', Some [(''c'', ''3'')], 0, 7) \<and>
   shown (Stat clockEnv ''overlayfs'' ns1 ''active''
       (snd (Update clockEnv ''overlayfs'' ns1 updDropA [''labels.a''] stLineage)))
     = Inr (''base'', Some [(''c'', ''3'')], 0, 7) \<and>
   map_sum id (\<lambda>i. entry (Labels i) ''a'') (Stat clockEnv ''overlayfs'' ns1 ''active''
       (snd (Update clockEnv ''overlayfs'' ns1 updDropA [''labels.a''] stLineage)))
     = Inr None"
  by code_simp

text \<open>C10, the same call as an instance of the theorem.\<close>

theorem labels_dot_path_deletes_empty_witness:
  "shown (fst (Update clockEnv ''overlayfs'' ns1 updDropA [''labels.a''] stLineage))
     = Inr (''base'', Some [(''c'', ''3'')], 0, 7) \<and>
   (\<exists>bkt' sbkt'.
      getSnapshotterBucket (store (snd (Update clockEnv ''overlayfs'' ns1 updDropA [''labels.a''] stLineage)))
        ''ns1'' ''overlayfs'' = Some bkt' \<and>
      map_of (snaps bkt') ''active'' = Some sbkt' \<and>
      entry (blabels sbkt') ''a'' = None \<and> entry (blabels sbkt') ''c'' = Some ''3'' \<and>
      Labels (projr (fst (Update clockEnv ''overlayfs'' ns1 updDropA [''labels.a''] stLineage)))
        = blabels sbkt')"
proof -
  let ?u = "Update clockEnv ''overlayfs'' ns1 updDropA [''labels.a''] stLineage"
  have sh: "shown (fst ?u) = Inr (''base'', Some [(''c'', ''3'')], 0, 7)"
    by code_simp
  then obtain r where r: "fst ?u = Inr r"
    by (cases "fst ?u") (simp_all add: shown_def)
  then have run: "?u = (Inr r, snd ?u)" by (simp add: prod_eq_iff)
  have name: "Name updDropA \<noteq> ''''" by (simp add: updDropA_def)
  have sbkt: "map_of (snaps \<lparr>bsequence = 2, snaps = lineage\<rparr>) (Name updDropA) = Some lineageActive"
    by (simp add: lineage_def updDropA_def)
  have canon: "sorted_wrt (<) (map fst (case blabels lineageActive of None \<Rightarrow> [] | Some m \<Rightarrow> m))"
    by (simp add: lineageActive_def)
  have paths: "[''labels.a''] \<noteq> []" "\<forall>p\<in>set [''labels.a'']. HasPrefix p ''labels.''"
    by (simp_all add: HasPrefix_def)
  have di: "drvStat clockEnv (world (snd ?u)) (bname lineageActive) = Inr emptyInfo \<and> Labels emptyInfo = None"
    by (simp add: clockEnv_def emptyInfo_def)
  from labels_dot_path_deletes_empty[OF ns1_required name bucket_stLineage sbkt canon paths,
      THEN conjunct2, rule_format, OF run]
  obtain bkt' sbkt' where
    b: "getSnapshotterBucket (store (snd ?u)) ''ns1'' ''overlayfs'' = Some bkt'"
      "map_of (snaps bkt') (Name updDropA) = Some sbkt'"
    and ent: "\<forall>k. entry (blabels sbkt') k =
        (if ''labels.'' @ k \<in> set [''labels.a'']
         then (if lookup (Labels updDropA) k = '''' then None else Some (lookup (Labels updDropA) k))
         else (if entry (blabels lineageActive) k = Some '''' then None else entry (blabels lineageActive) k))"
    and lab: "\<forall>di. drvStat clockEnv (world (snd ?u)) (bname lineageActive) = Inr di \<and> Labels di = None \<longrightarrow>
        Labels r = blabels sbkt'"
    by blast
  have a: "entry (blabels sbkt') ''a'' = None"
    using ent[rule_format, of "''a''"] by (simp add: updDropA_def lookup_def emptyInfo_def)
  have c: "entry (blabels sbkt') ''c'' = Some ''3''"
    using ent[rule_format, of "''c''"] by (simp add: lineageActive_def entry_def)
  have l: "Labels (projr (fst ?u)) = blabels sbkt'"
    using lab[rule_format, OF di] r by simp
  have n: "map_of (snaps bkt') ''active'' = Some sbkt'"
    using b(2) by (simp add: updDropA_def)
  show ?thesis using sh b(1) n a c l by blast
qed

subsection \<open>Walk\<close>

lemma scan_eq:
  "length pairs \<le> batchSize \<Longrightarrow>
   scan c pairs = (pairs @ map mkPair (take (batchSize - length pairs) c),
                   nextKey (drop (batchSize - length pairs) c))"
proof (induction c arbitrary: pairs)
  case Nil
  then show ?case by (simp add: nextKey_def)
next
  case (Cons x c)
  obtain k sbkt where x: "x = (k, sbkt)" by (cases x)
  show ?case
  proof (cases "length pairs \<ge> batchSize")
    case True
    with Cons.prems have "batchSize - length pairs = 0" by simp
    then show ?thesis using True by (simp add: x nextKey_def)
  next
    case False
    then have lt: "length pairs < batchSize" by simp
    then have "length (pairs @ [mkPair x]) \<le> batchSize" by simp
    from Cons.IH[OF this] lt show ?thesis
      by (simp add: x mkPair_def Suc_diff_Suc take_Cons' drop_Cons' split: nat.splits)
  qed
qed

lemma batch_Some:
  "batch (Some bkt) lastKey =
     (let c = (if lastKey = '''' then snaps bkt else seek (snaps bkt) lastKey)
      in (map mkPair (take batchSize c), nextKey (drop batchSize c)))"
  by (simp add: batch_def scan_eq Let_def)

lemma batchSize_pos: "0 < batchSize"
  by (simp add: batchSize_def)

lemma batch_length: "length (fst (batch b lastKey)) \<le> batchSize"
proof (cases b)
  case None
  then show ?thesis by (simp add: batch_def)
next
  case (Some bkt)
  show ?thesis unfolding Some batch_Some Let_def by simp
qed

lemma visitPairs_append:
  "visitPairs env w fn (xs @ ys) a =
     (case visitPairs env w fn xs a of
        (Some e, a1) \<Rightarrow> (Some e, a1)
      | (None, a1) \<Rightarrow> visitPairs env w fn ys a1)"
  by (induction xs arbitrary: a) (auto split: sum.splits prod.splits option.splits)

lemma seek_sorted:
  assumes "sorted_wrt (<) (map fst (pre @ (k, v) # r))"
  shows "seek (pre @ (k, v) # r) k = (k, v) # r"
proof -
  have "\<forall>x \<in> set pre. (case x of (k', _) \<Rightarrow> k' < k)"
    using assms by (auto simp: sorted_wrt_append)
  then have "dropWhile (\<lambda>(k', _). k' < k) (pre @ (k, v) # r) = dropWhile (\<lambda>(k', _). k' < k) ((k, v) # r)"
    by (intro dropWhile_append2) auto
  then show ?thesis by (simp add: seek_def)
qed

lemma walkLoop_from:
  "sorted_wrt (<) (map fst (pre @ rest)) \<Longrightarrow> snaps bkt = pre @ rest \<Longrightarrow>
   (if pre = [] then lastKey = '''' else rest \<noteq> [] \<and> lastKey = fst (hd rest)) \<Longrightarrow>
   walkLoop env w (Some bkt) fn lastKey a = Some (visitPairs env w fn (map mkPair rest) a)"
proof (induction "length rest" arbitrary: pre rest lastKey a rule: less_induct)
  case less
  have cur: "(if lastKey = '''' then snaps bkt else seek (snaps bkt) lastKey) = rest"
  proof (cases "pre = []")
    case True
    with less.prems show ?thesis by simp
  next
    case False
    with less.prems obtain k v r where rest: "rest = (k, v) # r" and lk: "lastKey = k"
      by (cases rest) auto
    from False obtain k0 where "k0 \<in> set (map fst pre)" by (cases pre) auto
    with less.prems(1) rest have "k0 < k" by (auto simp: sorted_wrt_append)
    then have "k \<noteq> ''''" by auto
    with less.prems(1,2) rest lk seek_sorted[of pre k v r] show ?thesis by simp
  qed
  let ?now = "take batchSize rest" and ?later = "drop batchSize rest"
  have b: "batch (Some bkt) lastKey = (map mkPair ?now, nextKey ?later)"
    by (simp add: batch_Some cur)
  have split: "visitPairs env w fn (map mkPair rest) a =
     (case visitPairs env w fn (map mkPair ?now) a of
        (Some e, a1) \<Rightarrow> (Some e, a1)
      | (None, a1) \<Rightarrow> visitPairs env w fn (map mkPair ?later) a1)"
    using visitPairs_append[of env w fn "map mkPair ?now" "map mkPair ?later" a]
    by (simp flip: map_append)
  obtain r1 a1 where v: "visitPairs env w fn (map mkPair ?now) a = (r1, a1)"
    by (cases "visitPairs env w fn (map mkPair ?now) a")
  show ?case
  proof (cases r1)
    case (Some e)
    then show ?thesis using b v split by (subst walkLoop.simps) simp
  next
    case None
    show ?thesis
    proof (cases ?later)
      case Nil
      then have all: "?now = rest" by simp
      have v': "visitPairs env w fn (map mkPair rest) a = (None, a1)"
        using v None unfolding all by simp
      have b': "batch (Some bkt) lastKey = (map mkPair rest, [])"
        using b unfolding all Nil by (simp add: nextKey_def)
      show ?thesis by (subst walkLoop.simps) (simp add: b' v')
    next
      case (Cons x later')
      obtain k' v' where x: "x = (k', v')" by (cases x)
      have restne: "rest \<noteq> []" using Cons by auto
      have nowne: "?now \<noteq> []" using restne batchSize_pos by simp
      have shorter: "length ?later < length rest" using restne batchSize_pos by simp
      have s': "sorted_wrt (<) (map fst ((pre @ ?now) @ ?later))"
        using less.prems(1) by simp
      have sn: "snaps bkt = (pre @ ?now) @ ?later" using less.prems(2) by simp
      have cond: "(if pre @ ?now = [] then k' = '''' else ?later \<noteq> [] \<and> k' = fst (hd ?later))"
        using nowne Cons x by simp
      from nowne obtain k0 where "k0 \<in> set (map fst ?now)" by (cases ?now) auto
      moreover have "sorted_wrt (<) (map fst (?now @ ?later))"
        using less.prems(1) by (simp add: sorted_wrt_append)
      ultimately have "k0 < k'" using Cons x
        by (auto simp: sorted_wrt_append simp del: append_take_drop_id)
      then have k'ne: "k' \<noteq> ''''" by auto
      have rec: "walkLoop env w (Some bkt) fn k' a1 = Some (visitPairs env w fn (map mkPair ?later) a1)"
        using less.hyps[OF shorter s' sn cond] .
      show ?thesis using b v split None Cons x k'ne rec
        by (subst walkLoop.simps) (simp add: nextKey_def)
    qed
  qed
qed

lemma visitPairs_walkSpec:
  "visitPairs env w fn (map mkPair recs) a = walkSpec env w fn recs a"
proof (induction recs arbitrary: a)
  case Nil
  then show ?case by simp
next
  case (Cons x recs)
  obtain k r where x: "x = (k, r)" by (cases x)
  show ?case using Cons.IH
    by (simp add: x mkPair_def split: sum.splits prod.splits option.splits)
qed

lemma walkSpec_append:
  "walkSpec env w fn (xs @ ys) a =
     (case walkSpec env w fn xs a of
        (Some e, a1) \<Rightarrow> (Some e, a1)
      | (None, a1) \<Rightarrow> walkSpec env w fn ys a1)"
  by (induction xs arbitrary: a) (auto split: sum.splits prod.splits option.splits)

lemma walkSpec_names:
  "\<forall>(k, r) \<in> set recs. \<forall>e. drvStat env w (bname r) = Inl e \<longrightarrow> e = NotFound \<Longrightarrow>
   walkSpec env w names recs acc =
     (None, acc @ map fst (filter (\<lambda>(k, r). drvStat env w (bname r) \<noteq> Inl NotFound) recs))"
proof (induction recs arbitrary: acc)
  case Nil
  then show ?case by simp
next
  case (Cons x recs)
  obtain k r where x: "x = (k, r)" by (cases x)
  have rest: "\<forall>(k, r) \<in> set recs. \<forall>e. drvStat env w (bname r) = Inl e \<longrightarrow> e = NotFound"
    using Cons.prems by simp
  show ?case
  proof (cases "drvStat env w (bname r)")
    case (Inl e)
    then have "e = NotFound" using Cons.prems by (simp add: x)
    then show ?thesis using Inl Cons.IH[OF rest] by (simp add: x)
  next
    case (Inr di)
    have "Name (overlayInfo di (localInfo k r)) = k"
      by (simp add: overlayInfo_def localInfo_def)
    then show ?thesis using Inr Cons.IH[OF rest] by (simp add: x names_def)
  qed
qed

text \<open>
  C8: over a bucket in byte order of its names, Walk returns, and what it returns is
  what the walk of the spec makes of all the records in that order; no transaction
  collects more than 100 pairs. In particular: when the driver's Stat answers nothing
  but NotFound as an error, the visitor that lists names is given every record's name
  once, in order, but for the records whose Stat is NotFound; and when the records
  before one have been walked without error, an error of the driver's Stat for that
  record other than NotFound, or an error of the visitor for it, is what Walk returns,
  with the visitor's state as that call left it.
\<close>

theorem Walk_in_order:
  assumes ns: "NamespaceRequired ctx = Inr ns"
    and bkt: "getSnapshotterBucket (store st) ns sname = Some bkt"
    and sorted: "sorted_wrt (<) (map fst (snaps bkt))"
  shows "Walk env sname ctx fn a st = Some (walkSpec env (world st) fn (snaps bkt) a) \<and>
     length (fst (batch (Some bkt) lastKey)) \<le> 100 \<and>
     ((\<forall>(k, r) \<in> set (snaps bkt). \<forall>e. drvStat env (world st) (bname r) = Inl e \<longrightarrow> e = NotFound) \<longrightarrow>
        Walk env sname ctx names [] st =
          Some (None, map fst (filter (\<lambda>(k, r). drvStat env (world st) (bname r) \<noteq> Inl NotFound) (snaps bkt)))) \<and>
     (snaps bkt = pre @ (k, r) # post \<and> walkSpec env (world st) fn pre a = (None, a1) \<and>
      drvStat env (world st) (bname r) = Inl e \<and> e \<noteq> NotFound \<longrightarrow>
        Walk env sname ctx fn a st = Some (Some e, a1)) \<and>
     (snaps bkt = pre @ (k, r) # post \<and> walkSpec env (world st) fn pre a = (None, a1) \<and>
      drvStat env (world st) (bname r) = Inr di \<and> fn a1 (overlayInfo di (localInfo k r)) = (Some e, a2) \<longrightarrow>
        Walk env sname ctx fn a st = Some (Some e, a2))"
proof -
  have loop: "walkLoop env (world st) (Some bkt) f '''' b = Some (walkSpec env (world st) f (snaps bkt) b)" for f b
    using walkLoop_from[of "[]" "snaps bkt" bkt "''''" env "world st" f b] sorted
    by (simp add: visitPairs_walkSpec)
  have walk: "Walk env sname ctx f b st = Some (walkSpec env (world st) f (snaps bkt) b)" for f b
    using ns bkt loop by (simp add: Walk_def)
  have len: "length (fst (batch (Some bkt) lastKey)) \<le> 100"
    using batch_length[of "Some bkt" lastKey] unfolding batchSize_def .
  have all: "Walk env sname ctx names [] st =
      Some (None, map fst (filter (\<lambda>(k, r). drvStat env (world st) (bname r) \<noteq> Inl NotFound) (snaps bkt)))"
    if "\<forall>(k, r) \<in> set (snaps bkt). \<forall>e. drvStat env (world st) (bname r) = Inl e \<longrightarrow> e = NotFound"
    using walk[of names "[]"] walkSpec_names[OF that, of "[]"] by simp
  have stat: "Walk env sname ctx fn a st = Some (Some e, a1)"
    if "snaps bkt = pre @ (k, r) # post" "walkSpec env (world st) fn pre a = (None, a1)"
      "drvStat env (world st) (bname r) = Inl e" "e \<noteq> NotFound"
    using walk[of fn a] that by (simp add: walkSpec_append)
  have vis: "Walk env sname ctx fn a st = Some (Some e, a2)"
    if "snaps bkt = pre @ (k, r) # post" "walkSpec env (world st) fn pre a = (None, a1)"
      "drvStat env (world st) (bname r) = Inr di" "fn a1 (overlayInfo di (localInfo k r)) = (Some e, a2)"
    using walk[of fn a] that by (simp add: walkSpec_append)
  show ?thesis using walk[of fn a] len all stat vis by blast
qed

lemma replicate_less: "m < n \<Longrightarrow> replicate m (c::char) < replicate n c"
proof (induction m arbitrary: n)
  case 0
  then show ?case by (cases n) auto
next
  case (Suc m)
  then show ?case by (cases n) auto
qed

lemma sorted_many: "sorted_wrt (<) (map fst manyRecs)"
proof -
  have "sorted_wrt (\<lambda>m n. replicate (Suc m) CHR ''k'' < replicate (Suc n) CHR ''k'') [0..<102]"
    by (rule sorted_wrt_mono_rel[of _ "(<)"]) (auto intro: replicate_less)
  then show ?thesis by (simp add: manyRecs_def sorted_wrt_map comp_def)
qed

lemma len_many: "length manyRecs = 102"
  by (simp add: manyRecs_def)

lemma bucket_many:
  "getSnapshotterBucket (store stMany) ''ns1'' ''overlayfs'' = Some \<lparr>bsequence = 102, snaps = manyRecs\<rparr>"
  by (simp add: stMany_def getSnapshotterBucket_def)

lemma split_many: "manyRecs = take 1 manyRecs @ (''kk'', emptyRec\<lparr>bname := ''bb''\<rparr>) # drop 2 manyRecs"
proof -
  have "manyRecs ! 1 = (''kk'', emptyRec\<lparr>bname := ''bb''\<rparr>)"
    by (simp add: manyRecs_def)
  then show ?thesis
    using id_take_nth_drop[of 1 manyRecs] len_many by (simp add: numeral_2_eq_2)
qed

text \<open>
  C8, instances: with 102 records and a driver that knows them all the visitor sees every
  name once, in order; with three records and a driver that answers NotFound for the
  second the visitor sees the first and the third; with 102 records and another error
  for the second, or a visitor that fails at the second, the walk ends with that error
  after the first.
\<close>

theorem Walk_in_order_witness:
  "length manyRecs = 102 \<and>
   Walk clockEnv ''overlayfs'' ns1 names [] stMany = Some (None, map fst manyRecs) \<and>
   Walk (pickyEnv NotFound) ''overlayfs'' ns1 names [] (stMany\<lparr>store := [(''ns1'', [(''overlayfs'',
       \<lparr>bsequence = 3, snaps = take 3 manyRecs\<rparr>)])]\<rparr>) = Some (None, [''k'', ''kkk'']) \<and>
   Walk (pickyEnv (Other ''io'')) ''overlayfs'' ns1 names [] stMany = Some (Some (Other ''io''), [''k'']) \<and>
   Walk clockEnv ''overlayfs'' ns1 (namesUntil ''kk'') [] stMany = Some (Some (Other ''stop''), [''k''])"
proof -
  have sorted: "sorted_wrt (<) (map fst (snaps \<lparr>bsequence = 102, snaps = manyRecs\<rparr>))"
    using sorted_many by simp
  have stat: "\<forall>(k, r) \<in> set (snaps \<lparr>bsequence = 102, snaps = manyRecs\<rparr>).
      \<forall>e. drvStat clockEnv (world stMany) (bname r) = Inl e \<longrightarrow> e = NotFound"
    by (simp add: clockEnv_def)
  have keep: "filter (\<lambda>(k, r). drvStat clockEnv (world stMany) (bname r) \<noteq> Inl NotFound) manyRecs = manyRecs"
    by (simp add: clockEnv_def)
  have all: "Walk clockEnv ''overlayfs'' ns1 names [] stMany = Some (None, map fst manyRecs)"
    using Walk_in_order[OF ns1_required bucket_many sorted, of clockEnv names "[]",
        THEN conjunct2, THEN conjunct2, THEN conjunct1, THEN mp, OF stat] keep
    by simp
  let ?st3 = "stMany\<lparr>store := [(''ns1'', [(''overlayfs'', \<lparr>bsequence = 3, snaps = take 3 manyRecs\<rparr>)])]\<rparr>"
  have b3: "getSnapshotterBucket (store ?st3) ''ns1'' ''overlayfs'' = Some \<lparr>bsequence = 3, snaps = take 3 manyRecs\<rparr>"
    by (simp add: getSnapshotterBucket_def)
  have s3: "sorted_wrt (<) (map fst (snaps \<lparr>bsequence = 3, snaps = take 3 manyRecs\<rparr>))"
    using sorted_wrt_take[OF sorted_many, of 3] by (simp add: take_map)
  have v1: "walkSpec (pickyEnv NotFound) (world ?st3) names (snaps \<lparr>bsequence = 3, snaps = take 3 manyRecs\<rparr>) []
      = (None, [''k'', ''kkk''])"
    by code_simp
  have nf: "Walk (pickyEnv NotFound) ''overlayfs'' ns1 names [] ?st3 = Some (None, [''k'', ''kkk''])"
    using Walk_in_order[OF ns1_required b3 s3, of "pickyEnv NotFound" names "[]", THEN conjunct1] v1
    by simp
  have p1: "walkSpec (pickyEnv (Other ''io'')) (world stMany) names (take 1 manyRecs) [] = (None, [''k''])"
    by code_simp
  have e2: "drvStat (pickyEnv (Other ''io'')) (world stMany) (bname (emptyRec\<lparr>bname := ''bb''\<rparr>)) = Inl (Other ''io'')
      \<and> Other ''io'' \<noteq> NotFound"
    by (simp add: pickyEnv_def)
  have sp: "snaps \<lparr>bsequence = 102, snaps = manyRecs\<rparr>
      = take 1 manyRecs @ (''kk'', emptyRec\<lparr>bname := ''bb''\<rparr>) # drop 2 manyRecs"
    using split_many by simp
  have io: "Walk (pickyEnv (Other ''io'')) ''overlayfs'' ns1 names [] stMany = Some (Some (Other ''io''), [''k''])"
    using Walk_in_order[OF ns1_required bucket_many sorted, of "pickyEnv (Other ''io'')" names "[]",
        THEN conjunct2, THEN conjunct2, THEN conjunct2, THEN conjunct1, rule_format,
        of "take 1 manyRecs" "''kk''" "emptyRec\<lparr>bname := ''bb''\<rparr>" "drop 2 manyRecs" "[''k'']" "Other ''io''"]
      sp p1 e2
    by blast
  have p2: "walkSpec clockEnv (world stMany) (namesUntil ''kk'') (take 1 manyRecs) [] = (None, [''k''])"
    by code_simp
  have d2: "drvStat clockEnv (world stMany) (bname (emptyRec\<lparr>bname := ''bb''\<rparr>)) = Inr emptyInfo"
    by (simp add: clockEnv_def)
  have f2: "namesUntil ''kk'' [''k''] (overlayInfo emptyInfo (localInfo ''kk'' (emptyRec\<lparr>bname := ''bb''\<rparr>)))
      = (Some (Other ''stop''), [''k''])"
    by (simp add: namesUntil_def overlayInfo_def localInfo_def)
  have stop: "Walk clockEnv ''overlayfs'' ns1 (namesUntil ''kk'') [] stMany = Some (Some (Other ''stop''), [''k''])"
    using Walk_in_order[OF ns1_required bucket_many sorted, of clockEnv "namesUntil ''kk''" "[]",
        THEN conjunct2, THEN conjunct2, THEN conjunct2, THEN conjunct2, rule_format,
        of "take 1 manyRecs" "''kk''" "emptyRec\<lparr>bname := ''bb''\<rparr>" "drop 2 manyRecs" "[''k'']"
          emptyInfo "Other ''stop''" "[''k'']"]
      sp p2 d2 f2
    by blast
  show ?thesis using len_many all nf io stop by (intro conjI)
qed

subsection \<open>The sweep\<close>

lemma removeEach_append:
  "removeEach rm (ks @ ks') w =
     (case removeEach rm ks w of (None, w1) \<Rightarrow> removeEach rm ks' w1 | (Some e, w1) \<Rightarrow> (Some e, w1))"
  by (induction ks arbitrary: w) (auto split: prod.splits option.splits)

lemma prune_refines:
  "removal_order n h p = Some ks \<Longrightarrow> pruneBranch rm n h p w = Some (removeEach rm ks w)"
  "removal_orders n h ps = Some ks' \<Longrightarrow> pruneAll rm n h ps w = Some (removeEach rm ks' w)"
proof (induction n h p and n h ps arbitrary: ks w and ks' w rule: removal_order_removal_orders.induct)
  case (1 h p)
  then show ?case by simp
next
  case (2 n h p)
  then show ?case
    by (auto simp: removeEach_append split: option.splits prod.splits if_splits)
next
  case (3 n h)
  then show ?case by simp
next
  case (4 n h c cs)
  then show ?case
    by (auto simp: removeEach_append split: option.splits prod.splits if_splits)
qed

lemma build_remove_inv_step:
  assumes "\<forall>p n. nodes f p = Some n \<longrightarrow> remove n \<longrightarrow> Name (info n) \<notin> seen"
  shows "\<forall>p n. nodes (visit seen f i) p = Some n \<longrightarrow> remove n \<longrightarrow> Name (info n) \<notin> seen"
  using assms
  by (auto simp: visit_def Let_def emptyNode_def split: option.splits if_splits)

lemma foldl_visit_inv:
  assumes "\<forall>p n. nodes f p = Some n \<longrightarrow> remove n \<longrightarrow> Name (info n) \<notin> seen"
  shows "\<forall>p n. nodes (foldl (visit seen) f infos) p = Some n \<longrightarrow> remove n \<longrightarrow> Name (info n) \<notin> seen"
  using assms
proof (induction infos arbitrary: f)
  case Nil then show ?case by simp
next
  case (Cons i infos)
  show ?case using Cons.IH[OF build_remove_inv_step[OF Cons.prems]] by simp
qed

lemma build_remove_inv:
  "nodes (build seen infos) p = Some n \<Longrightarrow> remove n \<Longrightarrow> Name (info n) \<notin> seen"
  using foldl_visit_inv[of emptyForest seen infos]
  by (simp add: build_def emptyForest_def)

lemma recording_snd:
  "recording rm ws k = (e, ws') \<Longrightarrow> snd ws' = snd ws @ [k]"
  by (auto simp: recording_def split: prod.splits)

lemma prune_trace:
  "pruneBranch rm n h p ws = Some (e, ws') \<Longrightarrow>
     \<forall>p n. h p = Some n \<longrightarrow> remove n \<longrightarrow> Name (info n) \<notin> seen \<Longrightarrow>
     \<forall>ws k e ws'. rm ws k = (e, ws') \<longrightarrow> snd ws' = snd ws @ [k] \<Longrightarrow>
     set (snd ws') \<subseteq> set (snd ws) \<union> - seen"
  "pruneAll rm n h ps ws = Some (e, ws') \<Longrightarrow>
     \<forall>p n. h p = Some n \<longrightarrow> remove n \<longrightarrow> Name (info n) \<notin> seen \<Longrightarrow>
     \<forall>ws k e ws'. rm ws k = (e, ws') \<longrightarrow> snd ws' = snd ws @ [k] \<Longrightarrow>
     set (snd ws') \<subseteq> set (snd ws) \<union> - seen"
proof (induction rm n h p ws and rm n h ps ws arbitrary: e ws' and e ws'
    rule: pruneBranch_pruneAll.induct)
  case (1 rm h p w)
  then show ?case by simp
next
  case (2 rm n h p w)
  from "2.prems"(1) obtain node where node: "h p = Some node"
    by (auto split: option.splits)
  from "2.prems"(1) node obtain x w1 where all: "pruneAll rm n h (children node) w = Some (x, w1)"
    by (auto split: option.splits)
  have sub1: "set (snd w1) \<subseteq> set (snd w) \<union> - seen"
    using "2.IH"[OF node all "2.prems"(2,3)] by simp
  show ?case
  proof (cases "x = None \<and> remove node")
    case True
    obtain e2 w2 where rm: "rm w1 (Name (info node)) = (e2, w2)"
      by (cases "rm w1 (Name (info node))")
    have "ws' = w2" using "2.prems"(1) node all True rm
      by (auto split: option.splits if_splits)
    moreover have "Name (info node) \<notin> seen" using "2.prems"(2) node True by blast
    ultimately show ?thesis using "2.prems"(3) rm sub1 by fastforce
  next
    case False
    then have "ws' = w1" using "2.prems"(1) node all
      by (auto split: option.splits if_splits)
    then show ?thesis using sub1 by simp
  qed
next
  case (3 rm n h w)
  then show ?case by simp
next
  case (4 rm n h c cs w)
  from "4.prems"(1) obtain x w1 where br: "pruneBranch rm n h c w = Some (x, w1)"
    by (auto split: option.splits)
  have sub1: "set (snd w1) \<subseteq> set (snd w) \<union> - seen"
    using "4.IH"(1)[OF br "4.prems"(2,3)] by simp
  show ?case
  proof (cases x)
    case None
    then have "pruneAll rm n h cs w1 = Some (e, ws')"
      using "4.prems"(1) br by simp
    from "4.IH"(2)[OF br refl None this "4.prems"(2,3)] sub1 show ?thesis by auto
  next
    case (Some a)
    then have "ws' = w1" using "4.prems"(1) br by simp
    then show ?thesis using sub1 by simp
  qed
qed

lemma linked_visit:
  assumes "linked f R"
  shows "linked (visit seen f i) (R \<union> parentRel [i])"
  using assms unfolding linked_def parentRel_def visit_def Let_def
  by (auto simp: emptyNode_def split: option.splits if_splits)

lemma parentRel_Cons: "parentRel (i # infos) = parentRel [i] \<union> parentRel infos"
  by (auto simp: parentRel_def)

lemma linked_foldl:
  "linked f R \<Longrightarrow> linked (foldl (visit seen) f infos) (R \<union> parentRel infos)"
proof (induction infos arbitrary: f R)
  case Nil
  then show ?case by (simp add: parentRel_def)
next
  case (Cons i infos)
  from Cons.IH[OF linked_visit[OF Cons.prems, of seen i]]
  show ?case by (simp add: parentRel_Cons[of i infos] Un_assoc)
qed

lemma linked_build: "linked (build seen infos) (parentRel infos)"
  using linked_foldl[of emptyForest "{}" seen infos]
  by (simp add: build_def linked_def emptyForest_def)

lemma pruneAll_returns:
  "(\<forall>c \<in> set cs. \<exists>N. \<forall>n\<ge>N. \<forall>w. pruneBranch rm n h c w \<noteq> None) \<Longrightarrow>
   \<exists>N. \<forall>n\<ge>N. \<forall>w. pruneAll rm n h cs w \<noteq> None"
proof (induction cs)
  case Nil
  then show ?case by simp
next
  case (Cons c cs)
  then obtain N1 where N1: "\<forall>n\<ge>N1. \<forall>w. pruneBranch rm n h c w \<noteq> None" by auto
  from Cons obtain N2 where N2: "\<forall>n\<ge>N2. \<forall>w. pruneAll rm n h cs w \<noteq> None" by auto
  have "\<forall>n\<ge>max N1 N2. \<forall>w. pruneAll rm n h (c # cs) w \<noteq> None"
    using N1 N2 by (auto split: option.splits)
  then show ?case by blast
qed

lemma pruneBranch_returns:
  assumes wf: "wf R"
    and links: "\<forall>p n c. h p = Some n \<longrightarrow> c \<in> set (children n) \<longrightarrow> (c, p) \<in> R \<and> h c \<noteq> None"
  shows "h p \<noteq> None \<Longrightarrow> \<exists>N. \<forall>n\<ge>N. \<forall>w. pruneBranch rm n h p w \<noteq> None"
  using wf
proof (induction p rule: wf_induct_rule)
  case (less p)
  then obtain node where node: "h p = Some node" by auto
  have "\<forall>c \<in> set (children node). \<exists>N. \<forall>n\<ge>N. \<forall>w. pruneBranch rm n h c w \<noteq> None"
    using less.IH links node by blast
  from pruneAll_returns[OF this] obtain N where
    N: "\<forall>n\<ge>N. \<forall>w. pruneAll rm n h (children node) w \<noteq> None" by blast
  have "\<forall>n\<ge>Suc N. \<forall>w. pruneBranch rm n h p w \<noteq> None"
  proof (intro allI impI)
    fix n w assume "Suc N \<le> n"
    then obtain m where m: "n = Suc m" "N \<le> m" by (cases n) auto
    with N have "pruneAll rm m h (children node) w \<noteq> None" by blast
    then show "pruneBranch rm n h p w \<noteq> None"
      using node m by (auto split: option.splits prod.splits)
  qed
  then show ?case by blast
qed

lemma finite_parentRel: "finite (parentRel infos)"
  by (simp add: parentRel_def)

lemma build_chainABC_nodes:
  "build seen chainABC = \<lparr>roots = [''A''],
     nodes = [''A'' \<mapsto> \<lparr>info = emptyInfo\<lparr>Name := ''A''\<rparr>, remove = ''A'' \<notin> seen, children = [''B'']\<rparr>,
              ''B'' \<mapsto> \<lparr>info = emptyInfo\<lparr>Name := ''B'', Parent := ''A''\<rparr>, remove = ''B'' \<notin> seen, children = [''C'']\<rparr>,
              ''C'' \<mapsto> \<lparr>info = emptyInfo\<lparr>Name := ''C'', Parent := ''B''\<rparr>, remove = ''C'' \<notin> seen, children = []\<rparr>]\<rparr>"
  by (simp add: build_def chainABC_def visit_def emptyForest_def emptyNode_def emptyInfo_def Let_def fun_upd_twist)

text \<open>
  Whatever the set \<open>seen\<close>, the driver's node list and the driver's answers, every
  key the sweep invokes Remove on is outside \<open>seen\<close>.
\<close>

lemma sweep_spares_seen:
  "pruneAll (recording rm) n (nodes (build seen infos)) (roots (build seen infos)) (w, []) = Some (e, (w', tr))
   \<Longrightarrow> set tr \<inter> seen = {}"
proof -
  assume run: "pruneAll (recording rm) n (nodes (build seen infos)) (roots (build seen infos)) (w, []) = Some (e, (w', tr))"
  have inv: "\<forall>p n. nodes (build seen infos) p = Some n \<longrightarrow> remove n \<longrightarrow> Name (info n) \<notin> seen"
    using build_remove_inv by blast
  have rec: "\<forall>ws k e ws'. recording rm ws k = (e, ws') \<longrightarrow> snd ws' = snd ws @ [k]"
    using recording_snd by blast
  from prune_trace(2)[OF run inv rec] show ?thesis by auto
qed


lemma deferred_recording:
  "deferred (recordingEnv env) t1 err (w, tr) = (r, ws) \<Longrightarrow> snd ws = tr"
  by (auto simp: deferred_def recordingEnv_def Let_def split: if_splits option.splits prod.splits)




lemma removeEach_trace:
  "\<forall>w k e. fst (rm w k) = Some e \<longrightarrow> e = FailedPrecondition \<Longrightarrow>
   fst (removeEach (recording rm) ks (w, tr)) = None \<and>
   snd (snd (removeEach (recording rm) ks (w, tr))) = tr @ ks"
proof (induction ks arbitrary: w tr)
  case Nil
  then show ?case by simp
next
  case (Cons k ks)
  obtain e w1 where rm: "rm w k = (e, w1)" by (cases "rm w k")
  have "e = None \<or> e = Some FailedPrecondition"
    using Cons.prems[rule_format, of w k] rm by (cases e) auto
  then show ?case using Cons.IH[OF Cons.prems, of w1 "tr @ [k]"] rm
    by (auto simp: recording_def)
qed

text \<open>
  C3: the sweep of a collection is a post-order traversal. When the driver's Walk
  succeeds and \<open>ks\<close> lists the names of the nodes marked removable below the roots of
  the forest, children before their parent, garbageCollect returns, and the keys the
  driver's Remove was invoked on are, in order, those that removing each key of \<open>ks\<close> in
  turn invokes it on, going on after a FailedPrecondition and stopping at any other
  error: all of \<open>ks\<close> when Remove answers nothing but FailedPrecondition, and when
  Remove answers another error the collection returns that error.
\<close>

theorem sweep_post_order:
  assumes walk: "drvWalk env w0 = ((infos, None), w1)"
    and start: "world st = (w0, [])"
    and order: "removal_orders fuel (nodes (build (mark (store st) sname) infos))
        (roots (build (mark (store st) sname) infos)) = Some ks"
  shows "\<exists>d err st'. garbageCollect (recordingEnv env) sname fuel st = Some ((d, err), st') \<and>
      snd (world st') = snd (snd (removeEach (recording (drvRemove env)) ks (w1, []))) \<and>
      (\<forall>e. fst (removeEach (recording (drvRemove env)) ks (w1, [])) = Some e \<longrightarrow> err = Some e \<and> d = 0) \<and>
      ((\<forall>w k e. fst (drvRemove env w k) = Some e \<longrightarrow> e = FailedPrecondition) \<longrightarrow> snd (world st') = ks)"
proof -
  let ?f = "build (mark (store st) sname) infos"
  let ?rm = "recording (drvRemove env)"
  have wt: "walkTree (recordingEnv env) (mark (store st) sname) (world st) = (Inr ?f, (w1, []))"
    using walk start by (simp add: walkTree_def recordingEnv_def)
  have rm: "drvRemove (recordingEnv env) = ?rm"
    by (simp add: recordingEnv_def)
  obtain e w2 tr where re: "removeEach ?rm ks (w1, []) = (e, (w2, tr))"
    by (metis prod.exhaust)
  have sweep: "pruneAll ?rm fuel (nodes ?f) (roots ?f) (w1, []) = Some (e, (w2, tr))"
    using prune_refines(2)[OF order, of ?rm "(w1, [])"] re by simp
  obtain d err ws where df: "deferred (recordingEnv env) (now (recordingEnv env) (world st)) e (w2, tr) = ((d, err), ws)"
    by (metis prod.exhaust)
  have gc: "garbageCollect (recordingEnv env) sname fuel st = Some ((d, err), st\<lparr>world := ws\<rparr>)"
    using wt rm sweep df by (simp add: garbageCollect_def Let_def)
  have tr: "snd ws = tr" using deferred_recording[OF df] .
  have ab: "err = Some x \<and> d = 0" if "e = Some x" for x
    using df that by (simp add: deferred_def)
  have all: "snd ws = ks" if "\<forall>w k e. fst (drvRemove env w k) = Some e \<longrightarrow> e = FailedPrecondition"
    using removeEach_trace[OF that, of ks w1 "[]"] re tr by simp
  show ?thesis using gc tr ab all re by auto
qed

lemma order_stRec:
  "removal_orders 4 (nodes (build (mark (store stRec) ''overlayfs'') chainABC))
     (roots (build (mark (store stRec) ''overlayfs'') chainABC)) = Some [''C'', ''B'', ''A'']"
proof -
  have "mark (store stRec) ''overlayfs'' = {}" by (simp add: mark_def stRec_def)
  then show ?thesis by (simp add: build_chainABC_nodes emptyInfo_def numeral_eq_Suc)
qed

text \<open>
  C3, the lineage A (root), B, C with nothing live: Remove is invoked on C, then B, then
  A; the same with a driver that answers FailedPrecondition for B; with another error
  for B the collection ends there with that error, A untouched.
\<close>

theorem sweep_post_order_witness:
  "map_option (\<lambda>(r, st). (snd r, snd (world st))) (garbageCollect (recordingEnv clockEnv) ''overlayfs'' 4 stRec)
     = Some (None, [''C'', ''B'', ''A'']) \<and>
   map_option (\<lambda>(r, st). (snd r, snd (world st)))
       (garbageCollect (recordingEnv (refusing FailedPrecondition)) ''overlayfs'' 4 stRec)
     = Some (None, [''C'', ''B'', ''A'']) \<and>
   map_option (\<lambda>(r, st). (r, snd (world st)))
       (garbageCollect (recordingEnv (refusing (Other ''busy''))) ''overlayfs'' 4 stRec)
     = Some ((0, Some (Other ''busy'')), [''C'', ''B''])"
proof -
  have start: "world stRec = (0, [])" by (simp add: stRec_def)
  have w1: "drvWalk clockEnv 0 = ((chainABC, None), 2)" by (simp add: clockEnv_def)
  have w2: "drvWalk (refusing e) 0 = ((chainABC, None), 2)" for e
    by (simp add: refusing_def clockEnv_def)
  have e1: "map_option (\<lambda>(r, st). snd r) (garbageCollect (recordingEnv clockEnv) ''overlayfs'' 4 stRec) = Some None"
    by code_simp
  have e2: "map_option (\<lambda>(r, st). snd r)
      (garbageCollect (recordingEnv (refusing FailedPrecondition)) ''overlayfs'' 4 stRec) = Some None"
    by code_simp
  from sweep_post_order[OF w1 start order_stRec] obtain d1 err1 st1 where
    g1: "garbageCollect (recordingEnv clockEnv) ''overlayfs'' 4 stRec = Some ((d1, err1), st1)"
    and t1: "(\<forall>w k e. fst (drvRemove clockEnv w k) = Some e \<longrightarrow> e = FailedPrecondition) \<longrightarrow>
        snd (world st1) = [''C'', ''B'', ''A'']"
    by blast
  have a: "map_option (\<lambda>(r, st). (snd r, snd (world st))) (garbageCollect (recordingEnv clockEnv) ''overlayfs'' 4 stRec)
     = Some (None, [''C'', ''B'', ''A''])"
    using g1 t1 e1 by (simp add: clockEnv_def)
  from sweep_post_order[OF w2 start order_stRec] obtain d2 err2 st2 where
    g2: "garbageCollect (recordingEnv (refusing FailedPrecondition)) ''overlayfs'' 4 stRec = Some ((d2, err2), st2)"
    and t2: "(\<forall>w k e. fst (drvRemove (refusing FailedPrecondition) w k) = Some e \<longrightarrow> e = FailedPrecondition) \<longrightarrow>
        snd (world st2) = [''C'', ''B'', ''A'']"
    by blast
  have b: "map_option (\<lambda>(r, st). (snd r, snd (world st)))
       (garbageCollect (recordingEnv (refusing FailedPrecondition)) ''overlayfs'' 4 stRec)
     = Some (None, [''C'', ''B'', ''A''])"
    using g2 t2 e2 by (simp add: refusing_def)
  have re: "removeEach (recording (drvRemove (refusing (Other ''busy'')))) [''C'', ''B'', ''A''] (2, [])
      = (Some (Other ''busy''), (4, [''C'', ''B'']))"
    by (simp add: refusing_def recording_def)
  from sweep_post_order[OF w2 start order_stRec, of "Other ''busy''"] obtain d3 err3 st3 where
    g3: "garbageCollect (recordingEnv (refusing (Other ''busy''))) ''overlayfs'' 4 stRec = Some ((d3, err3), st3)"
    and t3: "snd (world st3) = snd (snd (removeEach (recording (drvRemove (refusing (Other ''busy'')))) [''C'', ''B'', ''A''] (2, [])))"
    and a3: "\<forall>e. fst (removeEach (recording (drvRemove (refusing (Other ''busy'')))) [''C'', ''B'', ''A''] (2, [])) = Some e
        \<longrightarrow> err3 = Some e \<and> d3 = 0"
    by blast
  have c: "map_option (\<lambda>(r, st). (r, snd (world st)))
       (garbageCollect (recordingEnv (refusing (Other ''busy''))) ''overlayfs'' 4 stRec)
     = Some ((0, Some (Other ''busy'')), [''C'', ''B''])"
    using g3 t3 a3 re by simp
  show ?thesis using a b c by (intro conjI)
qed

text \<open>
  The pruning of the roots of the forest built from an acyclic node list returns, for
  some amount of fuel, whatever the driver's Remove answers.
\<close>

lemma sweep_returns:
  assumes "acyclic (parentRel infos)"
  shows "\<exists>n r. pruneAll rm n (nodes (build seen infos)) (roots (build seen infos)) w = Some r"
proof -
  let ?f = "build seen infos"
  have wf: "wf (parentRel infos)"
    using finite_acyclic_wf[OF finite_parentRel assms] .
  have l: "linked ?f (parentRel infos)" by (rule linked_build)
  then have links: "\<forall>p n c. nodes ?f p = Some n \<longrightarrow> c \<in> set (children n) \<longrightarrow>
      (c, p) \<in> parentRel infos \<and> nodes ?f c \<noteq> None"
    unfolding linked_def by blast
  have "\<forall>c \<in> set (roots ?f). \<exists>N. \<forall>n\<ge>N. \<forall>w. pruneBranch rm n (nodes ?f) c w \<noteq> None"
    using pruneBranch_returns[OF wf links] l unfolding linked_def by blast
  from pruneAll_returns[OF this] show ?thesis by blast
qed

lemma acyclic_chainABC: "acyclic (parentRel chainABC)"
proof (rule acyclicI_order[where f = "\<lambda>s. if s = ''A'' then 0 else if s = ''B'' then 1 else (2::nat)"])
  fix a b assume "(a, b) \<in> parentRel chainABC"
  then show "(if b = ''A'' then 0 else if b = ''B'' then 1 else (2::nat))
     < (if a = ''A'' then 0 else if a = ''B'' then 1 else 2)"
    by (auto simp: parentRel_def chainABC_def emptyInfo_def)
qed

text \<open>
  C9: when the parent relation of the node list the driver reports is acyclic (no node
  is its own ancestor), garbageCollect returns: the forest construction is a loop over
  the list, and some amount of fuel is enough for the pruning of every root, whatever
  the driver answers to Remove and Cleanup.
\<close>

theorem garbageCollect_terminates:
  assumes walk: "drvWalk env (world st) = ((infos, werr), w1)"
    and acyclic: "acyclic (parentRel infos)"
  shows "\<exists>fuel r. garbageCollect env sname fuel st = Some r"
proof (cases werr)
  case (Some e)
  then have "walkTree env (mark (store st) sname) (world st) = (Inl e, w1)"
    using walk by (simp add: walkTree_def)
  then have "garbageCollect env sname 0 st \<noteq> None"
    by (simp add: garbageCollect_def Let_def split: prod.splits)
  then show ?thesis by blast
next
  case None
  let ?f = "build (mark (store st) sname) infos"
  have wt: "walkTree env (mark (store st) sname) (world st) = (Inr ?f, w1)"
    using walk None by (simp add: walkTree_def)
  from sweep_returns[OF acyclic, of "drvRemove env" "mark (store st) sname" w1]
  obtain n r where "pruneAll (drvRemove env) n (nodes ?f) (roots ?f) w1 = Some r" by blast
  then have "garbageCollect env sname n st \<noteq> None"
    using wt by (simp add: garbageCollect_def Let_def split: prod.splits)
  then show ?thesis by blast
qed

text \<open>C9, an instance: the lineage A, B, C is acyclic, and its collection returns.\<close>

theorem garbageCollect_terminates_witness:
  "drvWalk clockEnv (world st0) = ((chainABC, None), 2) \<and> acyclic (parentRel chainABC) \<and>
   (\<exists>fuel r. garbageCollect clockEnv ''overlayfs'' fuel st0 = Some r)"
proof -
  have walk: "drvWalk clockEnv (world st0) = ((chainABC, None), 2)"
    by (simp add: clockEnv_def st0_def)
  from garbageCollect_terminates[OF walk acyclic_chainABC, of "''overlayfs''"] walk acyclic_chainABC
  show ?thesis by blast
qed

text \<open>
  There is no cycle guard: when the driver reports A as a root and then A again with
  parent A, the node is its own child and pruning it returns with no amount of fuel.
\<close>

lemma prune_self_loop_never_returns:
  "pruneBranch rm n (nodes (build seen [emptyInfo\<lparr>Name := ''A''\<rparr>, emptyInfo\<lparr>Name := ''A'', Parent := ''A''\<rparr>])) ''A'' w = None"
proof -
  have h: "nodes (build seen [emptyInfo\<lparr>Name := ''A''\<rparr>, emptyInfo\<lparr>Name := ''A'', Parent := ''A''\<rparr>]) ''A''
      = Some \<lparr>info = emptyInfo\<lparr>Name := ''A'', Parent := ''A''\<rparr>, remove = ''A'' \<notin> seen, children = [''A'']\<rparr>"
    by (simp add: build_def visit_def emptyForest_def emptyNode_def emptyInfo_def Let_def)
  show ?thesis
    by (induction n arbitrary: w) (simp_all add: h split: option.splits)
qed

subsection \<open>The duration garbageCollect returns\<close>

text \<open>
  C4 (as amended): when garbageCollect returns without an error, its duration is the
  clock of the state it leaves minus the clock at its start, and that state is the one
  after the driver's Cleanup when the driver has one: the duration includes the
  Cleanup. When it returns an error the duration is zero; and it returns the error of
  the driver's Walk, else the error that ended the sweep, else the error of Cleanup.
\<close>

theorem garbageCollect_duration:
  assumes run: "garbageCollect env sname fuel st = Some ((d, err), st')"
  shows "(err = None \<longrightarrow> d = now env (world st') - now env (world st)) \<and>
     (err \<noteq> None \<longrightarrow> d = 0) \<and>
     (\<forall>e w1. walkTree env (mark (store st) sname) (world st) = (Inl e, w1) \<longrightarrow>
        err = Some e \<and> world st' = w1) \<and>
     (\<forall>f w1 e w2. walkTree env (mark (store st) sname) (world st) = (Inr f, w1) \<and>
        pruneAll (drvRemove env) fuel (nodes f) (roots f) w1 = Some (Some e, w2) \<longrightarrow>
        err = Some e \<and> world st' = w2) \<and>
     (\<forall>f w1 w2. walkTree env (mark (store st) sname) (world st) = (Inr f, w1) \<and>
        pruneAll (drvRemove env) fuel (nodes f) (roots f) w1 = Some (None, w2) \<longrightarrow>
        (case drvCleanup env of
           None \<Rightarrow> err = None \<and> world st' = w2
         | Some cleanup \<Rightarrow> err = fst (cleanup w2) \<and> world st' = snd (cleanup w2)))"
proof -
  obtain x w1 where wt: "walkTree env (mark (store st) sname) (world st) = (x, w1)"
    by (cases "walkTree env (mark (store st) sname) (world st)")
  show ?thesis
  proof (cases x)
    case (Inl e)
    then show ?thesis using run wt
      by (auto simp: garbageCollect_def deferred_def Let_def)
  next
    case (Inr f)
    from run wt Inr obtain e2 w2 where
      sweep: "pruneAll (drvRemove env) fuel (nodes f) (roots f) w1 = Some (e2, w2)"
      by (auto simp: garbageCollect_def Let_def split: option.splits)
    show ?thesis
    proof (cases e2)
      case (Some e)
      then show ?thesis using run wt Inr sweep
        by (auto simp: garbageCollect_def deferred_def Let_def)
    next
      case None
      show ?thesis
      proof (cases "drvCleanup env")
        case nc: None
        then show ?thesis using run wt Inr sweep None
          by (auto simp: garbageCollect_def deferred_def Let_def)
      next
        case (Some cleanup)
        obtain e3 w3 where c: "cleanup w2 = (e3, w3)" by (cases "cleanup w2")
        show ?thesis using run wt Inr sweep None Some c
          by (cases e3) (auto simp: garbageCollect_def deferred_def Let_def)
      qed
    qed
  qed
qed

lemma walkTree_st0: "walkTree clockEnv (mark (store st0) ''overlayfs'') (world st0) = (Inr (build {} chainABC), 2)"
  by (simp add: walkTree_def clockEnv_def mark_def st0_def)

lemma sweep_st0:
  "pruneAll (drvRemove clockEnv) 4 (nodes (build {} chainABC)) (roots (build {} chainABC)) 2 = Some (None, 5)"
  by (simp add: build_chainABC_nodes clockEnv_def emptyInfo_def numeral_eq_Suc)

text \<open>
  C4, as the claim states it: with a driver whose Walk takes 2 ticks, each Remove 1 and
  the Cleanup 10, mark and sweep end at tick 5 and garbageCollect returns 15.
\<close>

theorem garbageCollect_duration_includes_cleanup:
  "walkTree clockEnv (mark (store st0) ''overlayfs'') (world st0) = (Inr (build {} chainABC), 2) \<and>
   pruneAll (drvRemove clockEnv) 4 (nodes (build {} chainABC)) (roots (build {} chainABC)) 2 = Some (None, 5) \<and>
   now clockEnv 5 - now clockEnv (world st0) = 5 \<and>
   map_option fst (garbageCollect clockEnv ''overlayfs'' 4 st0) = Some (15, None)"
proof -
  have "now clockEnv 5 - now clockEnv (world st0) = 5" by (simp add: clockEnv_def st0_def)
  moreover have "map_option fst (garbageCollect clockEnv ''overlayfs'' 4 st0) = Some (15, None)"
    by code_simp
  ultimately show ?thesis using walkTree_st0 sweep_st0 by simp
qed

text \<open>
  C4, instances: the same run returns 15 at clock 15; a failing Walk, a Remove failing
  with an error that is not tolerated, and a failing Cleanup each give a zero duration
  with the error.
\<close>

theorem garbageCollect_duration_witness:
  "map_option (\<lambda>(r, st). (r, world st)) (garbageCollect clockEnv ''overlayfs'' 4 st0) = Some ((15, None), 15) \<and>
   map_option fst (garbageCollect failingWalk ''overlayfs'' 4 st0) = Some (0, Some (Other ''walk'')) \<and>
   map_option fst (garbageCollect (refusing (Other ''busy'')) ''overlayfs'' 4 st0) = Some (0, Some (Other ''busy'')) \<and>
   map_option fst (garbageCollect failingCleanup ''overlayfs'' 4 st0) = Some (0, Some (Other ''cleanup''))"
proof -
  have e1: "map_option (\<lambda>(r, st). (snd r, world st)) (garbageCollect clockEnv ''overlayfs'' 4 st0) = Some (None, 15)"
    by code_simp
  then obtain d1 st1 where g1: "garbageCollect clockEnv ''overlayfs'' 4 st0 = Some ((d1, None), st1)"
    and w1: "world st1 = 15"
    by (cases "garbageCollect clockEnv ''overlayfs'' 4 st0") auto
  have "d1 = now clockEnv (world st1) - now clockEnv (world st0)"
    using garbageCollect_duration[OF g1] by simp
  then have a: "map_option (\<lambda>(r, st). (r, world st)) (garbageCollect clockEnv ''overlayfs'' 4 st0) = Some ((15, None), 15)"
    using g1 w1 by (simp add: clockEnv_def st0_def)
  have e2: "map_option (\<lambda>(r, st). snd r) (garbageCollect failingWalk ''overlayfs'' 4 st0) = Some (Some (Other ''walk''))"
    by code_simp
  then obtain d2 st2 where g2: "garbageCollect failingWalk ''overlayfs'' 4 st0 = Some ((d2, Some (Other ''walk'')), st2)"
    by (cases "garbageCollect failingWalk ''overlayfs'' 4 st0") auto
  have b: "map_option fst (garbageCollect failingWalk ''overlayfs'' 4 st0) = Some (0, Some (Other ''walk''))"
    using garbageCollect_duration[OF g2] g2 by simp
  have e3: "map_option (\<lambda>(r, st). snd r) (garbageCollect (refusing (Other ''busy'')) ''overlayfs'' 4 st0)
      = Some (Some (Other ''busy''))"
    by code_simp
  then obtain d3 st3 where g3: "garbageCollect (refusing (Other ''busy'')) ''overlayfs'' 4 st0
      = Some ((d3, Some (Other ''busy'')), st3)"
    by (cases "garbageCollect (refusing (Other ''busy'')) ''overlayfs'' 4 st0") auto
  have c: "map_option fst (garbageCollect (refusing (Other ''busy'')) ''overlayfs'' 4 st0) = Some (0, Some (Other ''busy''))"
    using garbageCollect_duration[OF g3] g3 by simp
  have e4: "map_option (\<lambda>(r, st). snd r) (garbageCollect failingCleanup ''overlayfs'' 4 st0)
      = Some (Some (Other ''cleanup''))"
    by code_simp
  then obtain d4 st4 where g4: "garbageCollect failingCleanup ''overlayfs'' 4 st0
      = Some ((d4, Some (Other ''cleanup'')), st4)"
    by (cases "garbageCollect failingCleanup ''overlayfs'' 4 st0") auto
  have d: "map_option fst (garbageCollect failingCleanup ''overlayfs'' 4 st0) = Some (0, Some (Other ''cleanup''))"
    using garbageCollect_duration[OF g4] g4 by simp
  show ?thesis using a b c d by (intro conjI)
qed

end
